theory Spec2Isabelle
  imports Complex_Main "HOL-Library.Log_Nat"
begin

section \<open>The genetic-algorithm engine of geneticPlayground\<close>

text \<open>
  A shallow embedding of \<^verbatim>\<open>src/scripts/genetic_functions.js\<close> (the version whose
  functions take the \<^verbatim>\<open>ascending\<close> flag) and of the evolution loop of
  \<^verbatim>\<open>src/scripts/genetic.js\<close>. The repository also holds earlier drafts of these
  functions (without the direction flag, with a leading 0 in the cumulative table) and a
  later draft of the loop (default export, with a stop predicate and a returned record);
  the embedding follows the two files named above.

  Conventions of the embedding:
  \<^item> A JavaScript number is an IEEE double: the type \<open>number\<close> has the finite values
    (a rational), the two infinities and \<open>NaN\<close>. Every arithmetic operation of the code
    (\<^verbatim>\<open>+\<close>, \<^verbatim>\<open>/\<close>, \<^verbatim>\<open>*\<close>) computes the exact result and rounds it to the nearest
    double, ties to even, with gradual underflow and overflow to an infinity
    (\<open>round_double\<close>). Comparisons, \<^verbatim>\<open>Math.min\<close>, \<^verbatim>\<open>Math.max\<close> and \<^verbatim>\<open>Math.floor\<close>
    are exact. The sign of a zero is not kept: the code divides by a zero only after
    adding 1 to it or as \<^verbatim>\<open>0 / 0\<close>.
  \<^item> A fitness value, a rate of the configuration and a random draw are finite
    numbers and are held as a rational. The doubles among the rationals are those that
    rounding leaves unchanged (\<open>is_double\<close>).
  \<^item> \<^verbatim>\<open>undefined\<close> is \<open>None\<close>: an array read out of range, an omitted argument, a
    missing property, the value of a function that ends without \<^verbatim>\<open>return\<close>.
  \<^item> \<^verbatim>\<open>throw\<close> is a value \<open>Inl e\<close> of a sum type.
  \<^item> \<^verbatim>\<open>Math.random()\<close> reads the next element of a list of draws that is passed
    through every function that draws. A computation that asks for a draw when the list
    is used up has not returned within the draws supplied: its value is \<open>None\<close>.
\<close>

subsection \<open>Errors and JavaScript values\<close>

datatype error = Error string | TypeError

text \<open>An optional boolean argument; \<open>None\<close> is the omitted argument.\<close>

definition truthy :: "bool option \<Rightarrow> bool" where
  "truthy flag = (flag = Some True)"

text \<open>\<^verbatim>\<open>xs[i]\<close>: the element, or \<^verbatim>\<open>undefined\<close> outside \<open>0 .. length - 1\<close>.\<close>

definition at_index :: "'a list \<Rightarrow> int \<Rightarrow> 'a option" where
  "at_index xs i = (if 0 \<le> i \<and> i < int (length xs) then Some (xs ! nat i) else None)"

text \<open>The same read on an array whose elements may themselves be \<^verbatim>\<open>undefined\<close>.\<close>

definition element :: "'a option list \<Rightarrow> int \<Rightarrow> 'a option" where
  "element xs i = (case at_index xs i of None \<Rightarrow> None | Some v \<Rightarrow> v)"

text \<open>
  \<^verbatim>\<open>xs.findIndex(p)\<close>: the first position whose element satisfies \<open>p\<close>, or \<open>-1\<close>.
\<close>

fun find_from :: "('a \<Rightarrow> bool) \<Rightarrow> 'a list \<Rightarrow> int \<Rightarrow> int" where
  "find_from p [] i = - 1"
| "find_from p (x # xs) i = (if p x then i else find_from p xs (i + 1))"

definition findIndex :: "('a \<Rightarrow> bool) \<Rightarrow> 'a list \<Rightarrow> int" where
  "findIndex p xs = find_from p xs 0"

subsection \<open>Numbers\<close>

datatype number = NaN | NegInfinity | Finite rat | Infinity

text \<open>The powers of two with an integer exponent.\<close>

definition pow2 :: "int \<Rightarrow> rat" where
  "pow2 n = (if 0 \<le> n then rat_of_int (2 ^ nat n) else 1 / rat_of_int (2 ^ nat (- n)))"

text \<open>The nearest integer, a tie going to the even one.\<close>

definition round_half_even :: "rat \<Rightarrow> int" where
  "round_half_even x =
     (let n = \<lfloor>x\<rfloor>; r = x - of_int n
      in if r < 1 / 2 then n else if 1 / 2 < r then n + 1 else if even n then n else n + 1)"

text \<open>
  The binary exponent of a rational \<open>x \<noteq> 0\<close>: the \<open>e\<close> with
  \<open>pow2 e \<le> \<bar>x\<bar> < pow2 (e + 1)\<close>, read off the bit lengths of numerator and
  denominator. Around \<open>x\<close> the doubles are the multiples of \<open>quantum x\<close>: 53
  significant bits, and below \<open>pow2 (- 1022)\<close> the fixed spacing \<open>pow2 (- 1074)\<close> of
  the subnormal numbers.
\<close>

definition exponent :: "rat \<Rightarrow> int" where
  "exponent x =
     (case quotient_of \<bar>x\<bar> of (a, b) \<Rightarrow>
        let d = bitlen a - bitlen b
        in if pow2 d \<le> \<bar>x\<bar> then d else d - 1)"

definition quantum :: "rat \<Rightarrow> rat" where
  "quantum x = pow2 (max (exponent x) (- 1022) - 52)"

definition nearest :: "rat \<Rightarrow> rat" where
  "nearest x = rat_of_int (round_half_even (x / quantum x)) * quantum x"

text \<open>
  Rounding to a double: a result that rounds to \<open>pow2 1024\<close> or beyond in magnitude
  is an infinity.
\<close>

definition round_double :: "rat \<Rightarrow> number" where
  "round_double x =
     (let y = nearest x
      in if pow2 1024 \<le> \<bar>y\<bar> then (if 0 < x then Infinity else NegInfinity) else Finite y)"

definition is_double :: "rat \<Rightarrow> bool" where
  "is_double x = (round_double x = Finite x)"

text \<open>\<^verbatim>\<open>x + y\<close>\<close>

definition num_add :: "number \<Rightarrow> number \<Rightarrow> number" where
  "num_add x y =
     (case (x, y) of
        (Finite a, Finite b) \<Rightarrow> round_double (a + b)
      | (NaN, _) \<Rightarrow> NaN
      | (_, NaN) \<Rightarrow> NaN
      | (Infinity, NegInfinity) \<Rightarrow> NaN
      | (NegInfinity, Infinity) \<Rightarrow> NaN
      | (Infinity, _) \<Rightarrow> Infinity
      | (_, Infinity) \<Rightarrow> Infinity
      | (NegInfinity, _) \<Rightarrow> NegInfinity
      | (_, NegInfinity) \<Rightarrow> NegInfinity)"

text \<open>\<^verbatim>\<open>x / y\<close>; a zero divisor counts as \<open>+0\<close>.\<close>

definition num_divide :: "number \<Rightarrow> number \<Rightarrow> number" where
  "num_divide x y =
     (case (x, y) of
        (NaN, _) \<Rightarrow> NaN
      | (_, NaN) \<Rightarrow> NaN
      | (Finite a, Finite b) \<Rightarrow>
          if b = 0 then (if a = 0 then NaN else if 0 < a then Infinity else NegInfinity)
          else round_double (a / b)
      | (Finite a, _) \<Rightarrow> Finite 0
      | (Infinity, Finite b) \<Rightarrow> if 0 \<le> b then Infinity else NegInfinity
      | (NegInfinity, Finite b) \<Rightarrow> if 0 \<le> b then NegInfinity else Infinity
      | (_, _) \<Rightarrow> NaN)"

text \<open>\<^verbatim>\<open>x < y\<close>; every comparison with \<open>NaN\<close> is false.\<close>

definition num_less :: "number \<Rightarrow> number \<Rightarrow> bool" where
  "num_less x y =
     (case (x, y) of
        (NaN, _) \<Rightarrow> False
      | (_, NaN) \<Rightarrow> False
      | (Finite a, Finite b) \<Rightarrow> a < b
      | (_, NegInfinity) \<Rightarrow> False
      | (NegInfinity, _) \<Rightarrow> True
      | (Infinity, _) \<Rightarrow> False
      | (_, Infinity) \<Rightarrow> True)"

definition Math_abs :: "number \<Rightarrow> number" where
  "Math_abs x = (case x of Finite a \<Rightarrow> Finite \<bar>a\<bar> | NegInfinity \<Rightarrow> Infinity | _ \<Rightarrow> x)"

definition Math_floor :: "number \<Rightarrow> number" where
  "Math_floor x = (case x of Finite a \<Rightarrow> Finite (rat_of_int \<lfloor>a\<rfloor>) | _ \<Rightarrow> x)"

text \<open>\<^verbatim>\<open>Math.max\<close> and \<^verbatim>\<open>Math.min\<close> of finite numbers.\<close>

fun Math_max :: "rat list \<Rightarrow> number" where
  "Math_max [] = NegInfinity"
| "Math_max (x # xs) = Finite (fold max xs x)"

fun Math_min :: "rat list \<Rightarrow> number" where
  "Math_min [] = Infinity"
| "Math_min (x # xs) = Finite (fold min xs x)"

text \<open>
  \<^verbatim>\<open>xs.indexOf(v)\<close> compares with \<^verbatim>\<open>===\<close>: a finite element is never equal to an
  infinity.
\<close>

definition indexOf :: "rat list \<Rightarrow> number \<Rightarrow> int" where
  "indexOf xs v = findIndex (\<lambda>x. Finite x = v) xs"

text \<open>
  \<^verbatim>\<open>v || 0\<close> on a number or \<^verbatim>\<open>undefined\<close>: the falsy values \<^verbatim>\<open>undefined\<close>, \<open>NaN\<close>
  and \<open>0\<close> give \<open>0\<close>.
\<close>

definition or_zero :: "number option \<Rightarrow> number" where
  "or_zero v = (case v of None \<Rightarrow> Finite 0 | Some NaN \<Rightarrow> Finite 0 | Some x \<Rightarrow> x)"

subsection \<open>Computations that draw random numbers and may throw\<close>

type_synonym 'a js = "rat list \<Rightarrow> (error + 'a \<times> rat list) option"

definition return :: "'a \<Rightarrow> 'a js" where
  "return v draws = Some (Inr (v, draws))"

definition throw :: "error \<Rightarrow> 'a js" where
  "throw e draws = Some (Inl e)"

definition bind :: "'a js \<Rightarrow> ('a \<Rightarrow> 'b js) \<Rightarrow> 'b js" where
  "bind m f draws =
     (case m draws of
        None \<Rightarrow> None
      | Some (Inl e) \<Rightarrow> Some (Inl e)
      | Some (Inr (v, rest)) \<Rightarrow> f v rest)"

subsection \<open>Individuals\<close>

text \<open>
  An evaluated individual is the object \<^verbatim>\<open>{...individual, fitness: f}\<close>: the
  properties of the raw individual (\<open>genes\<close>) and its fitness. A population handed to
  the selection functions is an array of such objects; an element can be \<^verbatim>\<open>undefined\<close>
  when it comes from a sample that read outside the population.
\<close>

record 'a individual =
  genes :: 'a
  fitness :: rat

type_synonym 'a population = "'a individual option list"

text \<open>
  \<^verbatim>\<open>population.map((individual) => individual.fitness)\<close>: reading a property of
  \<^verbatim>\<open>undefined\<close> throws a TypeError.
\<close>

definition fitness_values :: "'a population \<Rightarrow> error + rat list" where
  "fitness_values population =
     (case those population of
        None \<Rightarrow> Inl TypeError
      | Some individuals \<Rightarrow> Inr (map fitness individuals))"

subsection \<open>genetic_functions.js\<close>

text \<open>\<^verbatim>\<open>Array.from({ length: n }, () => creation_function())\<close>\<close>

fun repeat :: "nat \<Rightarrow> 'a js \<Rightarrow> 'a list js" where
  "repeat 0 creation_function = return []"
| "repeat (Suc k) creation_function =
     bind creation_function (\<lambda>x. bind (repeat k creation_function) (\<lambda>xs. return (x # xs)))"

definition randomPopulation :: "int \<Rightarrow> 'a js \<Rightarrow> 'a list js" where
  "randomPopulation n creation_function = repeat (nat n) creation_function"

definition evaluateFitness :: "'a list \<Rightarrow> ('a \<Rightarrow> 't \<Rightarrow> rat) \<Rightarrow> 't \<Rightarrow> 'a individual list" where
  "evaluateFitness population fitness_function target_value =
     map (\<lambda>individual. \<lparr>genes = individual, fitness = fitness_function individual target_value\<rparr>)
       population"

fun mutate :: "'a list \<Rightarrow> ('a \<Rightarrow> rat \<Rightarrow> 'a js) \<Rightarrow> rat \<Rightarrow> 'a list js" where
  "mutate [] mutation_function mutation_rate = return []"
| "mutate (individual # population) mutation_function mutation_rate =
     bind (mutation_function individual mutation_rate) (\<lambda>mutated.
     bind (mutate population mutation_function mutation_rate) (\<lambda>others.
     return (mutated # others)))"

definition fittestIndividual :: "'a population \<Rightarrow> bool option \<Rightarrow> error + 'a individual option" where
  "fittestIndividual population ascending =
     (case fitness_values population of
        Inl e \<Rightarrow> Inl e
      | Inr fitness_list \<Rightarrow>
          let index = (if truthy ascending
                       then indexOf fitness_list (Math_max fitness_list)
                       else indexOf fitness_list (Math_min fitness_list))
          in Inr (element population index))"

text \<open>
  The steps of \<^verbatim>\<open>relativeCumulativeFitness\<close> on the array of fitness values.
  \<^verbatim>\<open>if (fitness.some((value) => value < 0))\<close>: every value is replaced by
  \<^verbatim>\<open>value + Math.abs(min)\<close>, where \<^verbatim>\<open>min = Math.min(...fitness)\<close>.
\<close>

definition shift_negative :: "rat list \<Rightarrow> number list" where
  "shift_negative fitness_list =
     (if \<exists>value \<in> set fitness_list. value < 0
      then map (\<lambda>value. num_add (Finite value) (Math_abs (Math_min fitness_list))) fitness_list
      else map Finite fitness_list)"

text \<open>\<^verbatim>\<open>if (fitness.some((value) => value === 0))\<close>: every value is replaced by \<^verbatim>\<open>value + 1\<close>.\<close>

definition shift_zero :: "number list \<Rightarrow> number list" where
  "shift_zero fitness_list =
     (if \<exists>value \<in> set fitness_list. value = Finite 0
      then map (\<lambda>value. num_add value (Finite 1)) fitness_list
      else fitness_list)"

text \<open>\<^verbatim>\<open>if (!ascending)\<close>: every value is replaced by \<^verbatim>\<open>1 / value\<close>.\<close>

definition invert :: "bool option \<Rightarrow> number list \<Rightarrow> number list" where
  "invert ascending fitness_list =
     (if \<not> truthy ascending then map (\<lambda>value. num_divide (Finite 1) value) fitness_list
      else fitness_list)"

text \<open>The array \<^verbatim>\<open>fitness\<close> after these three steps.\<close>

definition adjusted_fitness :: "rat list \<Rightarrow> bool option \<Rightarrow> number list" where
  "adjusted_fitness fitness_list ascending =
     invert ascending (shift_zero (shift_negative fitness_list))"

text \<open>\<^verbatim>\<open>fitness.reduce((total, individual) => total + individual, 0)\<close>\<close>

definition total_fitness :: "number list \<Rightarrow> number" where
  "total_fitness fitness_list =
     foldl (\<lambda>total individual. num_add total individual) (Finite 0) fitness_list"

text \<open>\<^verbatim>\<open>fitness.map((individual) => individual / total_fitness)\<close>\<close>

definition relative_fitness :: "number list \<Rightarrow> number list" where
  "relative_fitness fitness_list =
     map (\<lambda>individual. num_divide individual (total_fitness fitness_list)) fitness_list"

text \<open>
  The reducer of the cumulative sum,
  \<^verbatim>\<open>(cumulative, individual, index) => [...cumulative, individual + (cumulative[index - 1] || 0)]\<close>,
  folded from \<^verbatim>\<open>[]\<close> over the relative fitness values with their positions.
\<close>

definition cumulative_step :: "number list \<Rightarrow> number \<times> nat \<Rightarrow> number list" where
  "cumulative_step cumulative iv =
     (case iv of (individual, index) \<Rightarrow>
        cumulative @ [num_add individual (or_zero (at_index cumulative (int index - 1)))])"

definition cumulative_sum :: "number list \<Rightarrow> number list" where
  "cumulative_sum relative =
     foldl cumulative_step [] (zip relative [0..<length relative])"

definition relativeCumulativeFitness :: "'a population \<Rightarrow> bool option \<Rightarrow> error + number list" where
  "relativeCumulativeFitness population ascending =
     (case fitness_values population of
        Inl e \<Rightarrow> Inl e
      | Inr fitness_list \<Rightarrow>
          Inr (cumulative_sum (relative_fitness (adjusted_fitness fitness_list ascending))))"

text \<open>
  The \<^verbatim>\<open>while (indices.length < n)\<close> loop of \<^verbatim>\<open>randomUniqueIndices\<close>: one draw per
  iteration, accepted when its index is new. \<^verbatim>\<open>Math.random()\<close> takes the head of
  the draws; with no draw left the loop has not finished. The index is that of
  \<^verbatim>\<open>weights.findIndex((f) => f > random_number)\<close>.
\<close>

fun unique_indices_loop :: "number list \<Rightarrow> int \<Rightarrow> int list \<Rightarrow> int list js" where
  "unique_indices_loop weights n indices [] =
     (if int (length indices) < n then None else Some (Inr (indices, [])))"
| "unique_indices_loop weights n indices (random_number # rest) =
     (if int (length indices) < n
      then (let index = findIndex (\<lambda>f. num_less (Finite random_number) f) weights
            in if index \<notin> set indices
               then unique_indices_loop weights n (indices @ [index]) rest
               else unique_indices_loop weights n indices rest)
      else Some (Inr (indices, random_number # rest)))"

definition randomUniqueIndices :: "number list \<Rightarrow> int \<Rightarrow> int list js" where
  "randomUniqueIndices weights n =
     (if n < 0 \<or> n > int (length weights)
      then throw (Error ''n must be between 0 and the population size'')
      else unique_indices_loop weights n [])"

definition weightedSampleWithoutReplacement ::
    "'a population \<Rightarrow> int \<Rightarrow> bool option \<Rightarrow> 'a population js" where
  "weightedSampleWithoutReplacement population n ascending =
     (if n > int (length population)
      then throw (Error ''n must be less than or equal to the population size'')
      else (case relativeCumulativeFitness population ascending of
              Inl e \<Rightarrow> throw e
            | Inr weights \<Rightarrow>
                bind (randomUniqueIndices weights n) (\<lambda>indices.
                return (map (\<lambda>index. element population index) indices))))"

text \<open>
  The \<^verbatim>\<open>for (let i = 0; i < n; i++)\<close> loop of \<^verbatim>\<open>crossover\<close>;
  \<^verbatim>\<open>const [parent1, parent2] = ...\<close> reads positions 0 and 1 of the sample.
\<close>

function crossover_loop ::
    "'a population \<Rightarrow> int \<Rightarrow> ('a individual option \<Rightarrow> 'a individual option \<Rightarrow> 'a js) \<Rightarrow> bool option
      \<Rightarrow> int \<Rightarrow> 'a list \<Rightarrow> 'a list js" where
  "crossover_loop population n crossover_function ascending i new_population =
     (if i < n
      then bind (weightedSampleWithoutReplacement population 2 ascending) (\<lambda>parents.
           bind (crossover_function (element parents 0) (element parents 1)) (\<lambda>child.
           crossover_loop population n crossover_function ascending (i + 1) (new_population @ [child])))
      else return new_population)"
  by pat_completeness auto
termination
  by (relation "measure (\<lambda>(population, n, crossover_function, ascending, i, new_population). nat (n - i))")
     auto

definition crossover ::
    "'a population \<Rightarrow> int \<Rightarrow> ('a individual option \<Rightarrow> 'a individual option \<Rightarrow> 'a js) \<Rightarrow> bool option
      \<Rightarrow> 'a list js" where
  "crossover population n crossover_function ascending =
     (if length population < 2
      then throw (Error ''population size must be greater than 1'')
      else crossover_loop population n crossover_function ascending 0 [])"

subsection \<open>Counts that are not integers\<close>

text \<open>
  The two functions above take the count \<open>n\<close> as an integer. genetic.js computes its
  counts as \<^verbatim>\<open>Math.floor(population.length * rate)\<close>, which is an infinity when the
  product overflows. The next definitions write out what the two functions do when they
  are called with such a count (or with \<open>NaN\<close>).

  \<^verbatim>\<open>weightedSampleWithoutReplacement\<close>: \<open>Infinity\<close> exceeds the population size;
  \<open>-Infinity\<close> passes the first check and, once the table is computed, fails the check
  of \<^verbatim>\<open>randomUniqueIndices\<close>; \<open>NaN\<close> passes both checks, the loop condition
  \<^verbatim>\<open>indices.length < n\<close> is false and the sample is empty.
\<close>

definition weightedSample_count ::
    "'a population \<Rightarrow> number \<Rightarrow> bool option \<Rightarrow> 'a population js" where
  "weightedSample_count population n ascending =
     (case n of
        Finite k \<Rightarrow> weightedSampleWithoutReplacement population \<lfloor>k\<rfloor> ascending
      | Infinity \<Rightarrow> throw (Error ''n must be less than or equal to the population size'')
      | NegInfinity \<Rightarrow>
          (case relativeCumulativeFitness population ascending of
             Inl e \<Rightarrow> throw e
           | Inr weights \<Rightarrow> throw (Error ''n must be between 0 and the population size''))
      | NaN \<Rightarrow>
          (case relativeCumulativeFitness population ascending of
             Inl e \<Rightarrow> throw e
           | Inr weights \<Rightarrow> return []))"

text \<open>
  \<^verbatim>\<open>crossover\<close>: after the size check, the loop \<^verbatim>\<open>for (let i = 0; i < n; i++)\<close> does
  not run for \<open>-Infinity\<close> and \<open>NaN\<close>, and has no last pass for \<open>Infinity\<close>: it ends only
  by an error, and otherwise does not return.
\<close>

partial_function (option) crossover_unbounded ::
    "'a population \<Rightarrow> ('a individual option \<Rightarrow> 'a individual option \<Rightarrow> 'a js) \<Rightarrow> bool option
      \<Rightarrow> 'a list \<Rightarrow> rat list \<Rightarrow> (error + 'a list \<times> rat list) option" where
  [code]: "crossover_unbounded population crossover_function ascending new_population draws =
     (case weightedSampleWithoutReplacement population 2 ascending draws of
        None \<Rightarrow> None
      | Some (Inl e) \<Rightarrow> Some (Inl e)
      | Some (Inr (parents, rest)) \<Rightarrow>
          (case crossover_function (element parents 0) (element parents 1) rest of
             None \<Rightarrow> None
           | Some (Inl e) \<Rightarrow> Some (Inl e)
           | Some (Inr (child, rest1)) \<Rightarrow>
               crossover_unbounded population crossover_function ascending
                 (new_population @ [child]) rest1))"

definition crossover_count ::
    "'a population \<Rightarrow> number \<Rightarrow> ('a individual option \<Rightarrow> 'a individual option \<Rightarrow> 'a js)
      \<Rightarrow> bool option \<Rightarrow> 'a list js" where
  "crossover_count population n crossover_function ascending =
     (case n of
        Finite k \<Rightarrow> crossover population \<lfloor>k\<rfloor> crossover_function ascending
      | Infinity \<Rightarrow>
          if length population < 2
          then throw (Error ''population size must be greater than 1'')
          else crossover_unbounded population crossover_function ascending []
      | _ \<Rightarrow>
          if length population < 2
          then throw (Error ''population size must be greater than 1'')
          else return [])"

subsection \<open>genetic.js\<close>

text \<open>
  The model object. \<^verbatim>\<open>geneticAlgorithm\<close> of genetic.js destructures
  \<^verbatim>\<open>creation_function\<close>, \<^verbatim>\<open>fitness_function\<close>, \<^verbatim>\<open>crossover_function\<close>,
  \<^verbatim>\<open>mutation_function\<close>, \<^verbatim>\<open>stop_value\<close> and \<^verbatim>\<open>target_value\<close> from it.
  \<^verbatim>\<open>stop_function\<close> is the method every model inherits from the model base class
  (default: never stop); genetic.js does not read it. A missing \<^verbatim>\<open>stop_value\<close> is
  \<open>None\<close>.
\<close>

record ('a, 't) model =
  creation_function :: "'a js"
  fitness_function :: "'a \<Rightarrow> 't \<Rightarrow> rat"
  crossover_function :: "'a individual option \<Rightarrow> 'a individual option \<Rightarrow> 'a js"
  mutation_function :: "'a \<Rightarrow> rat \<Rightarrow> 'a js"
  stop_function :: "rat \<Rightarrow> bool"
  stop_value :: "rat option"
  target_value :: 't

record configuration =
  population_size :: int
  generations :: int
  mutation_rate :: rat
  survival_rate :: rat
  reproduction_rate :: rat

text \<open>A decimal literal of the source denotes the double nearest to it.\<close>

definition literal :: "rat \<Rightarrow> rat" where
  "literal x = nearest x"

definition default_configuration :: configuration where
  "default_configuration =
     \<lparr>population_size = 100, generations = 100, mutation_rate = literal (1 / 100),
      survival_rate = literal (2 / 10), reproduction_rate = literal (15 / 10)\<rparr>"

text \<open>The default \<^verbatim>\<open>logging_function = () => {}\<close>.\<close>

definition no_logging :: "'a individual list list \<Rightarrow> unit js" where
  "no_logging h = return ()"

text \<open>
  One pass through the body of the \<^verbatim>\<open>for\<close> loop: it either leaves the loop
  (\<^verbatim>\<open>break\<close>) or hands the next population to the following pass. Both carry the
  history array.
\<close>

datatype 'a step = Break "'a individual list list" | Continue "'a list" "'a individual list list"

text \<open>
  The condition of the early exit,
  \<^verbatim>\<open>fittestIndividual(population).fitness === stop_value\<close>: the direction flag is
  omitted in the call, reading \<^verbatim>\<open>.fitness\<close> of \<^verbatim>\<open>undefined\<close> throws, and a number
  is never \<^verbatim>\<open>===\<close> to a missing \<^verbatim>\<open>stop_value\<close>.
\<close>

definition stop_check :: "('a, 't) model \<Rightarrow> 'a individual list \<Rightarrow> error + bool" where
  "stop_check model population =
     (case fittestIndividual (map Some population) None of
        Inl e \<Rightarrow> Inl e
      | Inr None \<Rightarrow> Inl TypeError
      | Inr (Some the_fittest) \<Rightarrow> Inr (Some (fitness the_fittest) = stop_value model))"

text \<open>\<^verbatim>\<open>Math.floor(population.length * rate)\<close>: the product is rounded, then floored.\<close>

definition floor_of_product :: "nat \<Rightarrow> rat \<Rightarrow> number" where
  "floor_of_product population_length rate =
     Math_floor (round_double (rat_of_nat population_length * rate))"

definition generation_body ::
    "('a, 't) model \<Rightarrow> ('a individual list list \<Rightarrow> unit js) \<Rightarrow> configuration
      \<Rightarrow> 'a list \<Rightarrow> 'a individual list list \<Rightarrow> 'a step js" where
  "generation_body model logging_function configuration raw_population history0 =
     (let population = evaluateFitness raw_population (fitness_function model) (target_value model);
          history1 = history0 @ [population]
      in bind (logging_function history1) (\<lambda>_.
         case stop_check model population of
           Inl e \<Rightarrow> throw e
         | Inr stop \<Rightarrow>
             if stop
             then return (Break history1)
             else
               (let number_of_survivors =
                      floor_of_product (length population) (survival_rate configuration)
                in bind (weightedSample_count (map Some population)
                           number_of_survivors None) (\<lambda>mating_pool.
                   let number_of_children =
                         floor_of_product (length population) (reproduction_rate configuration)
                   in bind (crossover_count mating_pool number_of_children
                              (crossover_function model) None) (\<lambda>next_generation.
                      bind (mutate next_generation (mutation_function model)
                              (mutation_rate configuration)) (\<lambda>mutated_generation.
                      return (Continue mutated_generation history1)))))))"

text \<open>\<^verbatim>\<open>for (let generation = 0; generation < generations; generation++)\<close>\<close>

function for_generations ::
    "('a, 't) model \<Rightarrow> ('a individual list list \<Rightarrow> unit js) \<Rightarrow> configuration
      \<Rightarrow> int \<Rightarrow> 'a list \<Rightarrow> 'a individual list list \<Rightarrow> 'a individual list list js" where
  "for_generations model logging_function configuration generation raw_population history0 =
     (if generation < generations configuration
      then bind (generation_body model logging_function configuration raw_population history0)
             (\<lambda>step. case step of
                 Break history1 \<Rightarrow> return history1
               | Continue next_generation history1 \<Rightarrow>
                   for_generations model logging_function configuration (generation + 1)
                     next_generation history1)
      else return history0)"
  by pat_completeness auto
termination
  by (relation "measure (\<lambda>(model, logging_function, configuration, generation, raw_population, history0).
        nat (generations configuration - generation))") auto

text \<open>
  The object \<^verbatim>\<open>{ history, fittest }\<close> that callers of \<^verbatim>\<open>geneticAlgorithm\<close>
  destructure. The function of genetic.js ends after its loop without a
  \<^verbatim>\<open>return\<close> statement, so its value is \<^verbatim>\<open>undefined\<close>.
\<close>

record 'a run_result =
  history :: "'a individual list list"
  fittest :: "'a individual option"

definition geneticAlgorithm ::
    "('a, 't) model \<Rightarrow> ('a individual list list \<Rightarrow> unit js) \<Rightarrow> configuration
      \<Rightarrow> 'a run_result option js" where
  "geneticAlgorithm model logging_function configuration =
     bind (randomPopulation (population_size configuration) (creation_function model))
       (\<lambda>raw_population.
     bind (for_generations model logging_function configuration 0 raw_population [])
       (\<lambda>final_history.
     return None))"

subsection \<open>A small model for the examples\<close>

text \<open>
  A model in the style of the repository's test model, on digits instead of strings: an
  individual is an object \<^verbatim>\<open>{ value: d }\<close> whose digit \<open>d\<close> (its \<open>genes\<close>) is
  drawn like a random character, \<^verbatim>\<open>Math.floor(Math.random() * 10)\<close>; its fitness is
  the digit; crossover keeps the larger digit of the two parents (and throws a TypeError
  when a parent is \<^verbatim>\<open>undefined\<close>); mutation changes nothing. Its stop predicate
  accepts every fitness from 1 on, and it has no \<^verbatim>\<open>stop_value\<close>.
\<close>

definition random_digit :: "nat js" where
  "random_digit draws =
     (case draws of
        [] \<Rightarrow> None
      | r # rest \<Rightarrow> Some (Inr (nat \<lfloor>nearest (r * 10)\<rfloor>, rest)))"

definition test_model :: "(nat, unit) model" where
  "test_model =
     \<lparr>creation_function = random_digit,
      fitness_function = (\<lambda>individual target. rat_of_nat individual),
      crossover_function = (\<lambda>parent1 parent2.
         case (parent1, parent2) of
           (Some a, Some b) \<Rightarrow> return (max (genes a) (genes b))
         | _ \<Rightarrow> throw TypeError),
      mutation_function = (\<lambda>individual rate. return individual),
      stop_function = (\<lambda>fitness_value. 1 \<le> fitness_value),
      stop_value = None,
      target_value = ()\<rparr>"

definition test_configuration :: configuration where
  "test_configuration =
     \<lparr>population_size = 2, generations = 2, mutation_rate = literal (1 / 100),
      survival_rate = 1, reproduction_rate = 1\<rparr>"

text \<open>
  The draws one generation of this model consumes when both individuals survive and two
  children are made: two for the mating pool and two for the parents of each child. With
  a population of digits 1 and 3 the first generation is \<open>first_generation\<close>, and both
  children are 3.
\<close>

definition generation_draws :: "rat list" where
  "generation_draws = [1 / 4, 9 / 10, 1 / 4, 9 / 10, 1 / 4, 9 / 10]"

definition first_generation :: "nat individual list" where
  "first_generation = [\<lparr>genes = 1, fitness = 1\<rparr>, \<lparr>genes = 3, fitness = 3\<rparr>]"

definition second_generation :: "nat individual list" where
  "second_generation = [\<lparr>genes = 3, fitness = 3\<rparr>, \<lparr>genes = 3, fitness = 3\<rparr>]"

subsection \<open>The errors the specification names\<close>

text \<open>
  The code throws plain \<^verbatim>\<open>Error\<close> objects that differ in their message only. The
  specification's \<open>InsufficientPopulation\<close> is the error of \<^verbatim>\<open>crossover\<close>; its
  \<open>InvalidSampleSize\<close> covers the two size checks, the one of
  \<^verbatim>\<open>weightedSampleWithoutReplacement\<close> and the one of \<^verbatim>\<open>randomUniqueIndices\<close>.
\<close>

definition InsufficientPopulation :: error where
  "InsufficientPopulation = Error ''population size must be greater than 1''"

definition InvalidSampleSize :: "error \<Rightarrow> bool" where
  "InvalidSampleSize e =
     (e = Error ''n must be less than or equal to the population size'' \<or>
      e = Error ''n must be between 0 and the population size'')"

subsection \<open>Notions used in the analysis of rounding\<close>

text \<open>
  The multiples of the smallest positive double, \<open>pow2 (- 1074)\<close>: every double is one,
  and so is every sum and difference of doubles.
\<close>

definition grid :: "rat \<Rightarrow> bool" where
  "grid x = (rat_of_int \<lfloor>x * pow2 1074\<rfloor> = x * pow2 1074)"

text \<open>
  One rounding changes a positive multiple of \<open>pow2 (- 1074)\<close> by at most the factor
  \<open>rho\<close>, up or down.
\<close>

definition rho :: rat where
  "rho = 1 + pow2 (- 52)"

text \<open>
  The sum that a left-to-right loop of rounded additions computes from a start value, as
  long as no addition overflows.
\<close>

definition fsum :: "rat \<Rightarrow> rat list \<Rightarrow> rat" where
  "fsum c xs = foldl (\<lambda>total individual. nearest (total + individual)) c xs"

text \<open>
  The relative fitness values and the cumulative table computed from finite adjusted
  values, as long as no operation overflows.
\<close>

definition relative_values :: "rat list \<Rightarrow> rat list" where
  "relative_values as = map (\<lambda>a. nearest (a / fsum 0 as)) as"

definition table_values :: "rat list \<Rightarrow> rat list" where
  "table_values rs = map (\<lambda>k. fsum 0 (take (Suc k) rs)) [0..<length rs]"

text \<open>A double that is not negative (positive), or \<open>Infinity\<close>.\<close>

definition nonneg_number :: "number \<Rightarrow> bool" where
  "nonneg_number x = (case x of Finite a \<Rightarrow> 0 \<le> a \<and> is_double a | Infinity \<Rightarrow> True | _ \<Rightarrow> False)"

definition positive_number :: "number \<Rightarrow> bool" where
  "positive_number x = (case x of Finite a \<Rightarrow> 0 < a \<and> is_double a | Infinity \<Rightarrow> True | _ \<Rightarrow> False)"

section \<open>Properties\<close>

subsection \<open>Basic facts about the embedding\<close>

lemma those_map_Some: "those (map Some xs) = Some xs"
  by (induction xs) auto

lemma fitness_values_map_Some:
  "fitness_values (map Some population) = Inr (map fitness population)"
  by (simp add: fitness_values_def those_map_Some)

lemma Math_min_nonempty: "xs \<noteq> [] \<Longrightarrow> Math_min xs = Finite (Min (set xs))"
  by (cases xs) (simp_all add: Min.set_eq_fold del: set_simps)

lemma Math_max_nonempty: "xs \<noteq> [] \<Longrightarrow> Math_max xs = Finite (Max (set xs))"
  by (cases xs) (simp_all add: Max.set_eq_fold del: set_simps)


subsection \<open>Finding the first position\<close>

lemma find_from_takeWhile:
  "find_from p xs i =
     (if \<exists>x \<in> set xs. p x then i + int (length (takeWhile (\<lambda>x. \<not> p x) xs)) else - 1)"
  by (induction xs arbitrary: i) auto

lemma findIndex_none: "\<not> (\<exists>x \<in> set xs. p x) \<Longrightarrow> findIndex p xs = - 1"
  by (simp add: findIndex_def find_from_takeWhile)

lemma findIndex_found:
  assumes "\<exists>x \<in> set xs. p x"
  shows "0 \<le> findIndex p xs" and "findIndex p xs < int (length xs)"
    and "p (xs ! nat (findIndex p xs))"
    and "\<And>j. j < nat (findIndex p xs) \<Longrightarrow> \<not> p (xs ! j)"
proof -
  let ?t = "takeWhile (\<lambda>x. \<not> p x) xs"
  have eq: "findIndex p xs = int (length ?t)"
    using assms by (simp add: findIndex_def find_from_takeWhile)
  have "?t \<noteq> xs" using assms by (auto simp: takeWhile_eq_all_conv)
  moreover have "?t = take (length ?t) xs" by (rule takeWhile_eq_take)
  ultimately have lt: "length ?t < length xs"
    by (metis length_takeWhile_le le_neq_implies_less take_all order_refl)
  show "0 \<le> findIndex p xs" by (simp add: eq)
  show "findIndex p xs < int (length xs)" using lt by (simp add: eq)
  show "p (xs ! nat (findIndex p xs))"
    using nth_length_takeWhile [OF lt] by (simp add: eq)
  show "\<not> p (xs ! j)" if "j < nat (findIndex p xs)" for j
  proof -
    from that have j: "j < length ?t" by (simp add: eq)
    then have "?t ! j \<in> set ?t" by (rule nth_mem)
    then have "\<not> p (?t ! j)" by (auto dest: set_takeWhileD)
    then show ?thesis using j by (simp add: takeWhile_nth)
  qed
qed

lemma element_map_Some:
  "0 \<le> i \<Longrightarrow> i < int (length xs) \<Longrightarrow> element (map Some xs) i = Some (xs ! nat i)"
  by (simp add: element_def at_index_def)

lemma indexOf_member:
  assumes "m \<in> set fs"
  shows "0 \<le> indexOf fs (Finite m)" and "indexOf fs (Finite m) < int (length fs)"
    and "fs ! nat (indexOf fs (Finite m)) = m"
    and "\<And>j. j < nat (indexOf fs (Finite m)) \<Longrightarrow> fs ! j \<noteq> m"
proof -
  have ex: "\<exists>x \<in> set fs. Finite x = Finite m" using assms by auto
  show "0 \<le> indexOf fs (Finite m)" "indexOf fs (Finite m) < int (length fs)"
    unfolding indexOf_def by (rule findIndex_found [OF ex])+
  show "fs ! nat (indexOf fs (Finite m)) = m"
    unfolding indexOf_def using findIndex_found(3) [OF ex] by simp
  show "fs ! j \<noteq> m" if "j < nat (indexOf fs (Finite m))" for j
    using findIndex_found(4) [OF ex, of j] that unfolding indexOf_def by simp
qed

text \<open>The individual at the first position of a given fitness value.\<close>

lemma first_with_fitness:
  assumes "m \<in> fitness ` set population"
  shows "\<exists>i<length population.
           element (map Some population) (indexOf (map fitness population) (Finite m))
             = Some (population ! i) \<and>
           fitness (population ! i) = m \<and> (\<forall>j<i. fitness (population ! j) \<noteq> m)"
proof -
  let ?fs = "map fitness population"
  let ?i = "nat (indexOf ?fs (Finite m))"
  have mem: "m \<in> set ?fs" using assms by simp
  note f = indexOf_member [OF mem]
  have lt: "?i < length population" using f(1,2) by simp
  have "element (map Some population) (indexOf ?fs (Finite m)) = Some (population ! ?i)"
    using f(1,2) by (simp add: element_map_Some)
  moreover have "fitness (population ! ?i) = m" using f(3) lt by simp
  moreover have "\<forall>j<?i. fitness (population ! j) \<noteq> m"
    using f(4) lt by (metis length_map less_trans nth_map)
  ultimately show ?thesis using lt by blast
qed

lemma fittestIndividual_ascending:
  assumes "population \<noteq> []"
  shows "fittestIndividual (map Some population) (Some True) =
           Inr (element (map Some population)
                  (indexOf (map fitness population) (Finite (Max (fitness ` set population)))))"
  using assms
  by (simp add: fittestIndividual_def fitness_values_map_Some truthy_def Math_max_nonempty)

lemma fittestIndividual_not_ascending:
  assumes "population \<noteq> []" and "\<not> truthy ascending"
  shows "fittestIndividual (map Some population) ascending =
           Inr (element (map Some population)
                  (indexOf (map fitness population) (Finite (Min (fitness ` set population)))))"
  using assms
  by (simp add: fittestIndividual_def fitness_values_map_Some Math_min_nonempty)

subsection \<open>Powers of two\<close>

lemma pow2_powi: "pow2 n = 2 powi n"
  by (simp add: pow2_def power_int_def power_one_over inverse_eq_divide)

lemma pow2_pos [simp]: "0 < pow2 n"
  by (simp add: pow2_powi)

lemma pow2_nonneg [simp]: "0 \<le> pow2 n"
  by (simp add: pow2_powi)

lemma pow2_neq_0 [simp]: "pow2 n \<noteq> 0"
  by (simp add: pow2_powi)

lemma pow2_add: "pow2 (m + n) = pow2 m * pow2 n"
  by (simp add: pow2_powi power_int_add)

lemma pow2_diff: "pow2 (m - n) = pow2 m / pow2 n"
  by (simp add: pow2_powi power_int_diff)

lemma pow2_0 [simp]: "pow2 0 = 1"
  by (simp add: pow2_def)

lemma pow2_nat: "pow2 (int n) = 2 ^ n"
  by (simp add: pow2_def)

lemma pow2_mono: "m \<le> n \<Longrightarrow> pow2 m \<le> pow2 n"
  by (simp add: pow2_powi power_int_increasing)

lemma pow2_strict_mono: "m < n \<Longrightarrow> pow2 m < pow2 n"
  by (simp add: pow2_powi power_int_strict_increasing)

lemma pow2_le_iff: "pow2 m \<le> pow2 n \<longleftrightarrow> m \<le> n"
  by (metis pow2_mono pow2_strict_mono not_le)

lemma pow2_less_iff: "pow2 m < pow2 n \<longleftrightarrow> m < n"
  by (metis pow2_mono pow2_strict_mono not_le)

lemma pow2_1 [simp]: "pow2 1 = 2"
  by (simp add: pow2_def)

lemma pow2_Suc: "pow2 (n + 1) = 2 * pow2 n"
  by (simp add: pow2_add)

subsection \<open>The binary exponent\<close>

lemma bitlen_pow2_bounds:
  assumes "0 < a"
  shows "pow2 (bitlen a - 1) \<le> rat_of_int a" and "rat_of_int a < pow2 (bitlen a)"
proof -
  from bitlen_bounds [OF assms]
  have lo: "2 ^ nat (bitlen a - 1) \<le> a" and hi: "a < 2 ^ nat (bitlen a)" by simp_all
  have ge: "1 \<le> bitlen a"
    using assms bitlen_eq_zero_iff [of a] bitlen_nonneg [of a] by linarith
  have "rat_of_int (2 ^ nat (bitlen a - 1)) \<le> rat_of_int a"
    using lo by (simp only: of_int_le_iff)
  then show "pow2 (bitlen a - 1) \<le> rat_of_int a"
    using ge by (simp add: pow2_def)
  have "rat_of_int a < rat_of_int (2 ^ nat (bitlen a))"
    using hi by (simp only: of_int_less_iff)
  then show "rat_of_int a < pow2 (bitlen a)"
    using ge by (simp add: pow2_def)
qed

lemma exponent_bounds:
  assumes "x \<noteq> 0"
  shows "pow2 (exponent x) \<le> \<bar>x\<bar>" and "\<bar>x\<bar> < pow2 (exponent x + 1)"
proof -
  obtain a b where q: "quotient_of \<bar>x\<bar> = (a, b)" by (cases "quotient_of \<bar>x\<bar>")
  have b: "0 < b" using q by (rule quotient_of_denom_pos)
  have x: "\<bar>x\<bar> = rat_of_int a / rat_of_int b" using q by (rule quotient_of_div)
  have "0 < \<bar>x\<bar>" using assms by simp
  then have a: "0 < a" using b unfolding x by (simp add: zero_less_divide_iff)
  let ?d = "bitlen a - bitlen b"
  note A = bitlen_pow2_bounds [OF a] and B = bitlen_pow2_bounds [OF b]
  have bpos: "0 < rat_of_int b" using b by simp
  have "\<bar>x\<bar> < pow2 (bitlen a) / pow2 (bitlen b - 1)"
    unfolding x using A(2) B(1) bpos a
    by (intro frac_less) simp_all
  also have "\<dots> = pow2 (?d + 1)"
    by (simp add: pow2_diff [symmetric] algebra_simps)
  finally have hi: "\<bar>x\<bar> < pow2 (?d + 1)" .
  have "pow2 (bitlen a - 1) / pow2 (bitlen b) < \<bar>x\<bar>"
    unfolding x using A(1) B(2) bpos a
    by (intro frac_less2) simp_all
  then have lo: "pow2 (?d - 1) < \<bar>x\<bar>"
    by (simp add: pow2_diff [symmetric] algebra_simps)
  have e: "exponent x = (if pow2 ?d \<le> \<bar>x\<bar> then ?d else ?d - 1)"
    by (simp add: exponent_def q Let_def)
  show "pow2 (exponent x) \<le> \<bar>x\<bar>"
    using lo by (simp add: e)
  show "\<bar>x\<bar> < pow2 (exponent x + 1)"
    using hi by (auto simp: e not_le)
qed

lemma exponent_unique:
  assumes "pow2 e \<le> \<bar>x\<bar>" and "\<bar>x\<bar> < pow2 (e + 1)"
  shows "exponent x = e"
proof -
  have "0 < \<bar>x\<bar>" using assms(1) pow2_pos [of e] by (rule less_le_trans [rotated])
  then have "x \<noteq> 0" by simp
  note b = exponent_bounds [OF this]
  have "pow2 e < pow2 (exponent x + 1)" using assms(1) b(2) by (rule le_less_trans)
  then have 1: "e < exponent x + 1" by (simp add: pow2_less_iff)
  have "pow2 (exponent x) < pow2 (e + 1)" using b(1) assms(2) by (rule le_less_trans)
  then have 2: "exponent x < e + 1" by (simp add: pow2_less_iff)
  from 1 2 show ?thesis by simp
qed

lemma exponent_mono:
  assumes "x \<noteq> 0" and "\<bar>x\<bar> \<le> \<bar>y\<bar>"
  shows "exponent x \<le> exponent y"
proof -
  have y: "y \<noteq> 0" using assms by auto
  have "pow2 (exponent x) \<le> \<bar>x\<bar>" by (rule exponent_bounds [OF assms(1)])
  also have "\<dots> \<le> \<bar>y\<bar>" by (rule assms(2))
  also have "\<dots> < pow2 (exponent y + 1)" by (rule exponent_bounds [OF y])
  finally show ?thesis by (simp add: pow2_less_iff)
qed

subsection \<open>Rounding to the nearest integer\<close>

lemma round_half_even_ge_floor: "\<lfloor>x\<rfloor> \<le> round_half_even x"
  by (simp add: round_half_even_def Let_def)

lemma round_half_even_le_floor: "round_half_even x \<le> \<lfloor>x\<rfloor> + 1"
  by (simp add: round_half_even_def Let_def)

lemma round_half_even_error: "\<bar>rat_of_int (round_half_even x) - x\<bar> \<le> 1 / 2"
proof -
  have "rat_of_int \<lfloor>x\<rfloor> \<le> x" "x < rat_of_int \<lfloor>x\<rfloor> + 1" by linarith+
  then show ?thesis
    by (auto simp: round_half_even_def Let_def abs_le_iff)
qed

lemma round_half_even_of_int [simp]: "round_half_even (rat_of_int k) = k"
  by (simp add: round_half_even_def)

lemma round_half_even_mono:
  assumes "x \<le> y"
  shows "round_half_even x \<le> round_half_even y"
proof (cases "\<lfloor>x\<rfloor> = \<lfloor>y\<rfloor>")
  case True
  then show ?thesis using assms by (auto simp: round_half_even_def Let_def)
next
  case False
  then have "\<lfloor>x\<rfloor> < \<lfloor>y\<rfloor>" using floor_mono [OF assms] by simp
  then have "round_half_even x \<le> \<lfloor>y\<rfloor>" using round_half_even_le_floor [of x] by simp
  then show ?thesis using round_half_even_ge_floor [of y] by simp
qed

lemma round_half_even_le:
  "x \<le> rat_of_int k \<Longrightarrow> round_half_even x \<le> k"
  using round_half_even_mono [of x "rat_of_int k"] by simp

lemma round_half_even_ge:
  "rat_of_int k \<le> x \<Longrightarrow> k \<le> round_half_even x"
  using round_half_even_mono [of "rat_of_int k" x] by simp

subsection \<open>Rounding to the nearest double\<close>

lemma pow2_1074: "pow2 (- 1074) * pow2 1074 = 1"
  by (simp add: pow2_add [symmetric])

lemma round_half_even_0 [simp]: "round_half_even 0 = 0"
  using round_half_even_of_int [of 0] by simp

lemma quantum_pos [simp]: "0 < quantum x"
  by (simp add: quantum_def)

lemma quantum_nonneg [simp]: "0 \<le> quantum x"
  by (simp add: quantum_def)

lemma quantum_neq_0 [simp]: "quantum x \<noteq> 0"
  by (simp add: quantum_def)

lemma grid_iff: "grid x \<longleftrightarrow> (\<exists>k. x = rat_of_int k * pow2 (- 1074))"
proof
  assume "grid x"
  then have "rat_of_int \<lfloor>x * pow2 1074\<rfloor> = x * pow2 1074"
    unfolding grid_def .
  then have "x * pow2 1074 * pow2 (- 1074) = rat_of_int \<lfloor>x * pow2 1074\<rfloor> * pow2 (- 1074)"
    by (simp only:)
  moreover have "x * pow2 1074 * pow2 (- 1074) = x * (pow2 (- 1074) * pow2 1074)"
    by (simp add: mult_ac)
  ultimately have "x = rat_of_int \<lfloor>x * pow2 1074\<rfloor> * pow2 (- 1074)"
    by (simp add: pow2_1074)
  then show "\<exists>k. x = rat_of_int k * pow2 (- 1074)" ..
next
  assume "\<exists>k. x = rat_of_int k * pow2 (- 1074)"
  then obtain k where "x = rat_of_int k * pow2 (- 1074)" ..
  then have "x * pow2 1074 = rat_of_int k * (pow2 (- 1074) * pow2 1074)"
    by (simp add: mult_ac)
  then have "x * pow2 1074 = rat_of_int k" by (simp add: pow2_1074)
  then show "grid x" unfolding grid_def by (simp only: floor_of_int)
qed

lemma grid_0 [simp]: "grid 0"
  by (simp add: grid_def)

lemma grid_add: "grid x \<Longrightarrow> grid y \<Longrightarrow> grid (x + y)"
  unfolding grid_iff
proof -
  assume "\<exists>k. x = rat_of_int k * pow2 (- 1074)" "\<exists>k. y = rat_of_int k * pow2 (- 1074)"
  then obtain k l where "x = rat_of_int k * pow2 (- 1074)" "y = rat_of_int l * pow2 (- 1074)"
    by blast
  then have "x + y = rat_of_int (k + l) * pow2 (- 1074)"
    by (simp add: algebra_simps)
  then show "\<exists>k. x + y = rat_of_int k * pow2 (- 1074)" ..
qed

lemma grid_diff: "grid x \<Longrightarrow> grid y \<Longrightarrow> grid (x - y)"
  unfolding grid_iff
proof -
  assume "\<exists>k. x = rat_of_int k * pow2 (- 1074)" "\<exists>k. y = rat_of_int k * pow2 (- 1074)"
  then obtain k l where "x = rat_of_int k * pow2 (- 1074)" "y = rat_of_int l * pow2 (- 1074)"
    by blast
  then have "x - y = rat_of_int (k - l) * pow2 (- 1074)"
    by (simp add: algebra_simps)
  then show "\<exists>k. x - y = rat_of_int k * pow2 (- 1074)" ..
qed

lemma grid_abs: "grid x \<Longrightarrow> grid \<bar>x\<bar>"
  using grid_diff [of 0 x] by (cases "0 \<le> x") (simp_all add: abs_if)

lemma grid_of_int [simp]: "grid (rat_of_int k)"
proof -
  have "rat_of_int k * pow2 1074 = rat_of_int (k * 2 ^ 1074)"
    using pow2_nat [of 1074] by simp
  then show ?thesis unfolding grid_def by (simp only: floor_of_int)
qed

lemma grid_1 [simp]: "grid 1"
  using grid_of_int [of 1] by simp

lemma quantum_grid: "\<exists>m. quantum x = rat_of_int m * pow2 (- 1074)"
proof -
  let ?E = "max (exponent x) (- 1022)"
  have "quantum x = pow2 ((?E + 1022) + (- 1074))"
    by (simp add: quantum_def algebra_simps)
  also have "\<dots> = pow2 (?E + 1022) * pow2 (- 1074)"
    by (rule pow2_add)
  also have "?E + 1022 = int (nat (?E + 1022))"
  proof -
    have "- 1022 \<le> ?E" by (rule max.cobounded2)
    then show ?thesis by linarith
  qed
  finally have "quantum x = pow2 (int (nat (?E + 1022))) * pow2 (- 1074)" .
  then have "quantum x = rat_of_int (2 ^ nat (?E + 1022)) * pow2 (- 1074)"
    by (simp only: pow2_nat of_int_power of_int_numeral)
  then show ?thesis ..
qed

lemma nearest_error: "\<bar>nearest x - x\<bar> \<le> quantum x / 2"
proof -
  let ?q = "quantum x"
  have "nearest x - x = (rat_of_int (round_half_even (x / ?q)) - x / ?q) * ?q"
    by (simp add: nearest_def algebra_simps)
  then have "\<bar>nearest x - x\<bar> = \<bar>rat_of_int (round_half_even (x / ?q)) - x / ?q\<bar> * ?q"
    by (simp add: abs_mult)
  also have "\<dots> \<le> 1 / 2 * ?q"
    by (intro mult_right_mono round_half_even_error) simp
  finally show ?thesis by simp
qed

lemma grid_nearest: "grid (nearest x)"
proof -
  obtain m where "quantum x = rat_of_int m * pow2 (- 1074)" using quantum_grid by blast
  then have "nearest x = rat_of_int (round_half_even (x / quantum x) * m) * pow2 (- 1074)"
    by (simp add: nearest_def)
  then show ?thesis unfolding grid_iff ..
qed

lemma nearest_0 [simp]: "nearest 0 = 0"
  by (simp add: nearest_def)

lemma nearest_nonneg: "0 \<le> x \<Longrightarrow> 0 \<le> nearest x"
proof -
  assume "0 \<le> x"
  then have "rat_of_int 0 \<le> x / quantum x" by simp
  then have "0 \<le> round_half_even (x / quantum x)" by (rule round_half_even_ge)
  then show ?thesis by (simp add: nearest_def)
qed

text \<open>Normal and subnormal range.\<close>

lemma exponent_normal:
  assumes "pow2 (- 1022) \<le> \<bar>x\<bar>"
  shows "- 1022 \<le> exponent x"
proof -
  have "0 < \<bar>x\<bar>" using assms pow2_pos [of "- 1022"] by (rule less_le_trans [rotated])
  then have "x \<noteq> 0" by simp
  from assms exponent_bounds(2) [OF this]
  have "pow2 (- 1022) < pow2 (exponent x + 1)" by (rule le_less_trans)
  then show ?thesis by (simp add: pow2_less_iff)
qed

lemma quantum_normal:
  assumes "pow2 (- 1022) \<le> \<bar>x\<bar>"
  shows "quantum x \<le> \<bar>x\<bar> * pow2 (- 52)"
proof -
  have "0 < \<bar>x\<bar>" using assms pow2_pos [of "- 1022"] by (rule less_le_trans [rotated])
  then have x: "x \<noteq> 0" by simp
  have "quantum x = pow2 (exponent x + (- 52))"
    using exponent_normal [OF assms] by (simp add: quantum_def max_def)
  also have "\<dots> = pow2 (exponent x) * pow2 (- 52)" by (rule pow2_add)
  also have "\<dots> \<le> \<bar>x\<bar> * pow2 (- 52)"
    by (intro mult_right_mono exponent_bounds(1) [OF x]) simp
  finally show ?thesis .
qed

lemma quantum_subnormal:
  assumes "x \<noteq> 0" and "\<bar>x\<bar> < pow2 (- 1022)"
  shows "quantum x = pow2 (- 1074)"
proof -
  from exponent_bounds(1) [OF assms(1)] assms(2)
  have "pow2 (exponent x) < pow2 (- 1022)" by (rule le_less_trans)
  then have "exponent x < - 1022" by (simp add: pow2_less_iff)
  then show ?thesis by (simp add: quantum_def max_def)
qed

lemma nearest_subnormal:
  assumes "grid x" and "\<bar>x\<bar> < pow2 (- 1022)"
  shows "nearest x = x"
proof (cases "x = 0")
  case True
  then show ?thesis by simp
next
  case False
  obtain k where k: "x = rat_of_int k * pow2 (- 1074)" using assms(1) grid_iff by blast
  have q: "quantum x = pow2 (- 1074)" by (rule quantum_subnormal [OF False assms(2)])
  have "x / quantum x = rat_of_int k" unfolding q by (simp add: k)
  then have "nearest x = rat_of_int k * quantum x" by (simp add: nearest_def)
  then show ?thesis unfolding q by (simp add: k)
qed

text \<open>The relative error of rounding, with \<open>pow2 (- 53)\<close> the unit roundoff.\<close>

lemma pow2_53: "pow2 (- 52) / 2 = pow2 (- 53)"
proof -
  have "pow2 (- 52) = pow2 (- 53 + 1)" by simp
  also have "\<dots> = 2 * pow2 (- 53)" by (simp only: pow2_Suc)
  finally show ?thesis by simp
qed

lemma pow2_1075: "pow2 (- 1074) / 2 = pow2 (- 1075)"
proof -
  have "pow2 (- 1074) = pow2 (- 1075 + 1)" by simp
  also have "\<dots> = 2 * pow2 (- 1075)" by (simp only: pow2_Suc)
  finally show ?thesis by simp
qed

lemma nearest_relative_error:
  assumes "grid x"
  shows "\<bar>nearest x - x\<bar> \<le> \<bar>x\<bar> * pow2 (- 53)"
proof (cases "pow2 (- 1022) \<le> \<bar>x\<bar>")
  case True
  have "\<bar>nearest x - x\<bar> \<le> quantum x / 2" by (rule nearest_error)
  also have "\<dots> \<le> \<bar>x\<bar> * pow2 (- 52) / 2"
    using quantum_normal [OF True] by simp
  also have "\<dots> = \<bar>x\<bar> * pow2 (- 53)" by (simp add: pow2_53 [symmetric])
  finally show ?thesis .
next
  case False
  then have "nearest x = x" using assms by (intro nearest_subnormal) simp_all
  then show ?thesis by simp
qed

lemma nearest_mixed_error:
  "\<bar>nearest x - x\<bar> \<le> \<bar>x\<bar> * pow2 (- 53) + pow2 (- 1075)"
proof (cases "pow2 (- 1022) \<le> \<bar>x\<bar>")
  case True
  have "\<bar>nearest x - x\<bar> \<le> quantum x / 2" by (rule nearest_error)
  also have "\<dots> \<le> \<bar>x\<bar> * pow2 (- 52) / 2"
    using quantum_normal [OF True] by simp
  also have "\<dots> = \<bar>x\<bar> * pow2 (- 53)" by (simp add: pow2_53 [symmetric])
  finally show ?thesis using pow2_pos [of "- 1075"] by linarith
next
  case False
  show ?thesis
  proof (cases "x = 0")
    case True
    then show ?thesis by simp
  next
    case x: False
    have "\<bar>nearest x - x\<bar> \<le> quantum x / 2" by (rule nearest_error)
    also have "\<dots> = pow2 (- 1075)"
      using quantum_subnormal [OF x] False by (simp add: pow2_1075)
    finally have "\<bar>nearest x - x\<bar> \<le> pow2 (- 1075)" .
    moreover have "0 \<le> \<bar>x\<bar> * pow2 (- 53)" by simp
    ultimately show ?thesis by linarith
  qed
qed

subsection \<open>Rounding is idempotent and monotone\<close>

lemma quantum_eq: "quantum x = pow2 (max (exponent x) (- 1022) - 52)"
  by (simp add: quantum_def)

lemma abs_less_pow2_max:
  assumes "x \<noteq> 0"
  shows "\<bar>x\<bar> < pow2 (max (exponent x) (- 1022) + 1)"
proof -
  have "\<bar>x\<bar> < pow2 (exponent x + 1)" by (rule exponent_bounds [OF assms])
  also have "\<dots> \<le> pow2 (max (exponent x) (- 1022) + 1)"
    by (intro pow2_mono) simp
  finally show ?thesis .
qed

lemma pow2_max_quantum: "pow2 (max (exponent x) (- 1022) + 1) = pow2 53 * quantum x"
proof -
  have "max (exponent x) (- 1022) + 1 = 53 + (max (exponent x) (- 1022) - 52)" by simp
  then show ?thesis unfolding quantum_eq by (simp only: pow2_add)
qed

lemma pow2_max_quantum': "pow2 (max (exponent x) (- 1022)) = pow2 52 * quantum x"
proof -
  have "max (exponent x) (- 1022) = 52 + (max (exponent x) (- 1022) - 52)" by simp
  then have "pow2 (max (exponent x) (- 1022)) = pow2 (52 + (max (exponent x) (- 1022) - 52))"
    by simp
  then show ?thesis unfolding quantum_eq by (simp only: pow2_add)
qed

lemma pow2_int: "0 \<le> n \<Longrightarrow> pow2 n = rat_of_int (2 ^ nat n)"
  by (simp add: pow2_def)

lemma significand_bounds:
  shows "round_half_even (x / quantum x) \<le> 2 ^ 53"
    and "- (2 ^ 53) \<le> round_half_even (x / quantum x)"
proof -
  have le: "\<bar>x\<bar> \<le> pow2 53 * quantum x"
  proof (cases "x = 0")
    case True
    then show ?thesis by simp
  next
    case False
    from abs_less_pow2_max [OF False] show ?thesis
      by (simp only: pow2_max_quantum)
  qed
  then have "\<bar>x\<bar> / quantum x \<le> pow2 53"
    by (simp add: pos_divide_le_eq)
  then have a: "\<bar>x / quantum x\<bar> \<le> rat_of_int (2 ^ 53)"
    by (simp add: pow2_int)
  have "x / quantum x \<le> \<bar>x / quantum x\<bar>" by (rule abs_ge_self)
  then have "x / quantum x \<le> rat_of_int (2 ^ 53)" using a by (rule order_trans)
  then show "round_half_even (x / quantum x) \<le> 2 ^ 53" by (rule round_half_even_le)
  have "- (x / quantum x) \<le> \<bar>x / quantum x\<bar>" by (rule abs_ge_minus_self)
  then have "- (x / quantum x) \<le> rat_of_int (2 ^ 53)" using a by (rule order_trans)
  then have "rat_of_int (- (2 ^ 53)) \<le> x / quantum x" by simp
  then show "- (2 ^ 53) \<le> round_half_even (x / quantum x)" by (rule round_half_even_ge)
qed

lemma abs_nearest_le: "\<bar>nearest x\<bar> \<le> pow2 (max (exponent x) (- 1022) + 1)"
proof -
  have "\<bar>round_half_even (x / quantum x)\<bar> \<le> 2 ^ 53"
    using significand_bounds [of x] by (simp add: abs_le_iff)
  then have "rat_of_int \<bar>round_half_even (x / quantum x)\<bar> \<le> rat_of_int (2 ^ 53)"
    by (simp only: of_int_le_iff)
  then have "\<bar>rat_of_int (round_half_even (x / quantum x))\<bar> \<le> pow2 53"
    by (simp add: pow2_int)
  then have "\<bar>rat_of_int (round_half_even (x / quantum x))\<bar> * quantum x \<le> pow2 53 * quantum x"
    by (intro mult_right_mono) simp_all
  then show ?thesis
    by (simp add: nearest_def abs_mult pow2_max_quantum)
qed

lemma nearest_multiple:
  assumes "y = rat_of_int j * quantum y"
  shows "nearest y = y"
proof -
  have "y / quantum y = rat_of_int j"
    by (subst assms) simp
  then have "nearest y = rat_of_int j * quantum y" by (simp add: nearest_def)
  then show ?thesis using assms by simp
qed

lemma nearest_idem [simp]: "nearest (nearest x) = nearest x"
proof (cases "nearest x = 0")
  case True
  then show ?thesis by simp
next
  case False
  let ?y = "nearest x"
  let ?E = "max (exponent x) (- 1022)"
  let ?E' = "max (exponent ?y) (- 1022)"
  let ?k = "round_half_even (x / quantum x)"
  have y: "?y = rat_of_int ?k * pow2 (?E - 52)" by (simp add: nearest_def quantum_def)
  have le: "\<bar>?y\<bar> \<le> pow2 (?E + 1)" by (rule abs_nearest_le)
  show ?thesis
  proof (cases "\<bar>?y\<bar> < pow2 (?E + 1)")
    case True
    from exponent_bounds(1) [OF False] True
    have "pow2 (exponent ?y) < pow2 (?E + 1)" by (rule le_less_trans)
    then have "exponent ?y \<le> ?E" by (simp add: pow2_less_iff)
    then have E: "?E' \<le> ?E" by simp
    have "pow2 (?E - 52) = pow2 ((?E - ?E') + (?E' - 52))" by simp
    also have "\<dots> = pow2 (?E - ?E') * pow2 (?E' - 52)" by (rule pow2_add)
    also have "pow2 (?E - ?E') = rat_of_int (2 ^ nat (?E - ?E'))"
      using E by (intro pow2_int) simp
    finally have "?y = rat_of_int (?k * 2 ^ nat (?E - ?E')) * quantum ?y"
      unfolding y quantum_eq [of "rat_of_int ?k * pow2 (?E - 52)"] by simp
    then show ?thesis by (rule nearest_multiple)
  next
    case top: False
    with le have eq: "\<bar>?y\<bar> = pow2 (?E + 1)" by simp
    have "pow2 (?E + 1) \<le> \<bar>?y\<bar>" "\<bar>?y\<bar> < pow2 (?E + 1 + 1)"
      by (simp_all add: eq pow2_less_iff)
    then have "exponent ?y = ?E + 1" by (rule exponent_unique)
    then have E: "?E' = ?E + 1" by simp
    have q: "quantum ?y = pow2 (?E + 1 - 52)"
      unfolding quantum_eq [of ?y] E ..
    have "?E + 1 = 52 + (?E + 1 - 52)" by simp
    then have "pow2 (?E + 1) = pow2 (52 + (?E + 1 - 52))" by (rule arg_cong)
    also have "\<dots> = pow2 52 * pow2 (?E + 1 - 52)" by (rule pow2_add)
    also have "pow2 52 = rat_of_int (2 ^ 52)" by (simp add: pow2_int)
    finally have p: "pow2 (?E + 1) = rat_of_int (2 ^ 52) * quantum ?y"
      unfolding q .
    show ?thesis
    proof (cases "0 \<le> ?y")
      case True
      then have "?y = rat_of_int (2 ^ 52) * quantum ?y" using eq p by simp
      then show ?thesis by (rule nearest_multiple)
    next
      case False
      then have "?y = - pow2 (?E + 1)" using eq by simp
      then have "?y = rat_of_int (- (2 ^ 52)) * quantum ?y" using p by simp
      then show ?thesis by (rule nearest_multiple)
    qed
  qed
qed

lemma nearest_mono:
  assumes "0 \<le> x" and "x \<le> y"
  shows "nearest x \<le> nearest y"
proof (cases "x = 0")
  case True
  then show ?thesis using nearest_nonneg [of y] assms by simp
next
  case False
  then have x: "0 < x" and y: "0 < y" using assms by simp_all
  let ?Ex = "max (exponent x) (- 1022)"
  let ?Ey = "max (exponent y) (- 1022)"
  have "exponent x \<le> exponent y"
    using False assms by (intro exponent_mono) simp_all
  then have E: "?Ex \<le> ?Ey" by simp
  show ?thesis
  proof (cases "?Ex = ?Ey")
    case True
    then have q: "quantum x = quantum y" by (simp add: quantum_def)
    have "x / quantum y \<le> y / quantum y"
      using assms(2) by (simp add: divide_right_mono)
    then have "round_half_even (x / quantum y) \<le> round_half_even (y / quantum y)"
      by (rule round_half_even_mono)
    then show ?thesis
      by (simp add: nearest_def q)
  next
    case False
    then have lt: "?Ex + 1 \<le> ?Ey" using E by simp
    then have "- 1022 < ?Ey" by simp
    then have ey: "?Ey = exponent y" by (simp add: max_def split: if_splits)
    have "nearest x \<le> \<bar>nearest x\<bar>" by simp
    also have "\<dots> \<le> pow2 (?Ex + 1)" by (rule abs_nearest_le)
    also have "\<dots> \<le> pow2 ?Ey" using lt by (rule pow2_mono)
    also have "\<dots> \<le> nearest y"
    proof -
      have "pow2 ?Ey \<le> y"
        using exponent_bounds(1) [of y] y by (simp add: ey)
      then have "pow2 52 * quantum y \<le> y" by (simp only: pow2_max_quantum')
      then have "rat_of_int (2 ^ 52) \<le> y / quantum y"
        by (simp add: pos_le_divide_eq pow2_int)
      then have "2 ^ 52 \<le> round_half_even (y / quantum y)" by (rule round_half_even_ge)
      then have "rat_of_int (2 ^ 52) \<le> rat_of_int (round_half_even (y / quantum y))"
        by (simp only: of_int_le_iff)
      then have "rat_of_int (2 ^ 52) * quantum y \<le> nearest y"
        unfolding nearest_def by (intro mult_right_mono) simp_all
      then show ?thesis by (simp add: pow2_max_quantum' pow2_int)
    qed
    finally show ?thesis .
  qed
qed

lemma nearest_pos:
  assumes "pow2 (- 1074) \<le> x"
  shows "0 < nearest x"
proof -
  have x: "0 < x" using pow2_pos [of "- 1074"] assms by (rule less_le_trans)
  have "nearest (pow2 (- 1074)) = pow2 (- 1074)"
  proof (rule nearest_subnormal)
    show "grid (pow2 (- 1074))" unfolding grid_iff by (intro exI [of _ 1]) simp
    show "\<bar>pow2 (- 1074)\<bar> < pow2 (- 1022)" by (simp add: pow2_less_iff)
  qed
  moreover have "nearest (pow2 (- 1074)) \<le> nearest x"
    using assms by (intro nearest_mono) simp_all
  ultimately show ?thesis using pow2_pos [of "- 1074"] by linarith
qed

subsection \<open>Rounding with overflow\<close>

lemma round_double_Finite_iff:
  "round_double x = Finite y \<longleftrightarrow> y = nearest x \<and> \<bar>nearest x\<bar> < pow2 1024"
  by (auto simp: round_double_def Let_def not_le)

lemma round_double_Finite:
  "\<bar>nearest x\<bar> < pow2 1024 \<Longrightarrow> round_double x = Finite (nearest x)"
  by (simp add: round_double_Finite_iff)

lemma round_double_cases:
  "round_double x = Finite (nearest x) \<and> \<bar>nearest x\<bar> < pow2 1024 \<or>
   round_double x = Infinity \<and> 0 < x \<or> round_double x = NegInfinity \<and> x \<le> 0"
  by (auto simp: round_double_def Let_def not_le)

lemma round_double_not_NaN [simp]: "round_double x \<noteq> NaN"
  by (simp add: round_double_def Let_def)

lemma is_double_iff: "is_double x \<longleftrightarrow> nearest x = x \<and> \<bar>x\<bar> < pow2 1024"
  by (auto simp: is_double_def round_double_Finite_iff)

lemma is_double_round_double: "round_double x = Finite y \<Longrightarrow> is_double y"
  by (auto simp: is_double_iff round_double_Finite_iff)

lemma is_double_grid: "is_double x \<Longrightarrow> grid x"
  using grid_nearest [of x] by (simp add: is_double_iff)

lemma is_double_0 [simp]: "is_double 0"
  by (simp add: is_double_iff)

lemma exponent_pow2 [simp]: "exponent (pow2 n) = n"
  by (rule exponent_unique) (simp_all add: pow2_less_iff)

lemma nearest_pow2:
  assumes "- 1074 \<le> n"
  shows "nearest (pow2 n) = pow2 n"
proof -
  let ?E = "max n (- 1022)"
  have q: "quantum (pow2 n) = pow2 (?E - 52)" by (simp add: quantum_def)
  have "0 \<le> n - (?E - 52)" using assms by simp
  then have "pow2 (n - (?E - 52)) = rat_of_int (2 ^ nat (n - (?E - 52)))" by (rule pow2_int)
  moreover have "pow2 n = pow2 ((n - (?E - 52)) + (?E - 52))" by simp
  ultimately have "pow2 n = rat_of_int (2 ^ nat (n - (?E - 52))) * quantum (pow2 n)"
    unfolding q by (simp only: pow2_add)
  then show ?thesis by (rule nearest_multiple)
qed

lemma is_double_pow2: "- 1074 \<le> n \<Longrightarrow> n < 1024 \<Longrightarrow> is_double (pow2 n)"
  by (simp add: is_double_iff nearest_pow2 pow2_less_iff)

lemma nearest_1 [simp]: "nearest 1 = 1"
  using nearest_pow2 [of 0] by simp

lemma is_double_1 [simp]: "is_double 1"
  using is_double_pow2 [of 0] by simp

lemma round_double_overflow:
  assumes "pow2 1024 \<le> x"
  shows "round_double x = Infinity"
proof -
  have "nearest (pow2 1024) \<le> nearest x"
    using assms by (intro nearest_mono) simp_all
  then have "pow2 1024 \<le> nearest x" by (simp add: nearest_pow2)
  then have "pow2 1024 \<le> \<bar>nearest x\<bar>" by simp
  moreover have "0 < x" using pow2_pos [of 1024] assms by (rule less_le_trans)
  ultimately show ?thesis by (simp add: round_double_def Let_def)
qed

lemma round_double_id: "is_double x \<Longrightarrow> round_double x = Finite x"
  by (simp add: is_double_def)

subsection \<open>Sums of rounded additions\<close>

lemma rho_ge_1: "1 \<le> rho"
  by (simp add: rho_def)

lemma rho_pos: "0 < rho"
  using rho_ge_1 by linarith

lemma rho_power_ge_1: "1 \<le> rho ^ n"
  using rho_ge_1 by (rule one_le_power)

lemma rho_power_mono: "m \<le> n \<Longrightarrow> rho ^ m \<le> rho ^ n"
  using rho_ge_1 by (rule power_increasing [rotated])

lemma pow2_52_53: "pow2 (- 52) = 2 * pow2 (- 53)"
  using pow2_Suc [of "- 53"] by simp

lemma pow2_52_le_1: "pow2 (- 52) \<le> 1"
  using pow2_mono [of "- 52" 0] by simp

lemma nearest_le_rho:
  assumes "grid x" and "0 \<le> x"
  shows "nearest x \<le> rho * x"
proof -
  have "nearest x - x \<le> \<bar>nearest x - x\<bar>" by simp
  also have "\<dots> \<le> \<bar>x\<bar> * pow2 (- 53)" by (rule nearest_relative_error [OF assms(1)])
  also have "\<dots> = x * pow2 (- 53)" using assms(2) by simp
  also have "\<dots> \<le> x * pow2 (- 52)"
    using assms(2) by (intro mult_left_mono pow2_mono) simp_all
  finally show ?thesis by (simp add: rho_def algebra_simps)
qed

lemma le_rho_nearest:
  assumes "grid x" and "0 \<le> x"
  shows "x \<le> rho * nearest x"
proof -
  let ?u = "pow2 (- 53)"
  have "x - nearest x \<le> \<bar>nearest x - x\<bar>" by simp
  also have "\<dots> \<le> \<bar>x\<bar> * ?u" by (rule nearest_relative_error [OF assms(1)])
  also have "\<dots> = x * ?u" using assms(2) by simp
  finally have "x - x * ?u \<le> nearest x" by simp
  then have "rho * (x - x * ?u) \<le> rho * nearest x"
    using rho_pos by (intro mult_left_mono) simp_all
  moreover have "rho * (x - x * ?u) = x + x * ?u * (1 - 2 * ?u)"
    by (simp add: rho_def pow2_52_53 algebra_simps)
  moreover have "0 \<le> x * ?u * (1 - 2 * ?u)"
    using assms(2) pow2_52_le_1 by (intro mult_nonneg_nonneg) (simp_all add: pow2_52_53)
  ultimately show ?thesis by linarith
qed

lemma fsum_Nil [simp]: "fsum c [] = c"
  by (simp add: fsum_def)

lemma fsum_Cons [simp]: "fsum c (x # xs) = fsum (nearest (c + x)) xs"
  by (simp add: fsum_def)

lemma fsum_snoc [simp]: "fsum c (xs @ [x]) = nearest (fsum c xs + x)"
  by (simp add: fsum_def)

lemma fsum_nonneg:
  assumes "0 \<le> c" and "\<forall>x \<in> set xs. 0 \<le> x"
  shows "0 \<le> fsum c xs"
  using assms
proof (induction xs arbitrary: c)
  case Nil
  then show ?case by simp
next
  case (Cons x xs)
  have "0 \<le> nearest (c + x)" using Cons.prems by (intro nearest_nonneg) simp
  then show ?case using Cons.prems by (simp add: Cons.IH)
qed

lemma fsum_grid:
  assumes "grid c"
  shows "grid (fsum c xs)"
  using assms by (induction xs arbitrary: c) (simp_all add: grid_nearest)

lemma fsum_fixed:
  assumes "nearest c = c"
  shows "nearest (fsum c xs) = fsum c xs"
  using assms by (induction xs arbitrary: c) simp_all

lemma fsum_ge:
  assumes "0 \<le> c" and "nearest c = c" and "\<forall>x \<in> set xs. 0 \<le> x"
  shows "c \<le> fsum c xs"
  using assms
proof (induction xs arbitrary: c)
  case Nil
  then show ?case by simp
next
  case (Cons x xs)
  have "nearest c \<le> nearest (c + x)"
    using Cons.prems by (intro nearest_mono) simp_all
  then have 1: "c \<le> nearest (c + x)" using Cons.prems(2) by simp
  then have "0 \<le> nearest (c + x)" using Cons.prems(1) by simp
  then have "nearest (c + x) \<le> fsum (nearest (c + x)) xs"
    using Cons.prems(3) by (intro Cons.IH) simp_all
  with 1 show ?case by simp
qed

lemma fsum_close_both:
  assumes "grid c" and "0 \<le> c" and "\<forall>x \<in> set xs. grid x \<and> 0 \<le> x"
  shows "fsum c xs \<le> rho ^ length xs * (c + sum_list xs) \<and>
         c + sum_list xs \<le> rho ^ length xs * fsum c xs"
  using assms
proof (induction xs arbitrary: c)
  case Nil
  then show ?case by simp
next
  case (Cons x xs)
  have g: "grid (c + x)" and n: "0 \<le> c + x"
    using Cons.prems by (simp_all add: grid_add)
  have g': "grid (nearest (c + x))" by (rule grid_nearest)
  have n': "0 \<le> nearest (c + x)" using n by (rule nearest_nonneg)
  have rest: "\<forall>x \<in> set xs. grid x \<and> 0 \<le> x" using Cons.prems(3) by simp
  have s: "0 \<le> sum_list xs" using rest by (intro sum_list_nonneg) simp
  note IH = Cons.IH [OF g' n' rest]
  have "fsum c (x # xs) = fsum (nearest (c + x)) xs" by simp
  also have "\<dots> \<le> rho ^ length xs * (nearest (c + x) + sum_list xs)"
    using IH by (rule conjunct1)
  also have "\<dots> \<le> rho ^ length xs * (rho * (c + x) + rho * sum_list xs)"
  proof (intro mult_left_mono add_mono)
    show "nearest (c + x) \<le> rho * (c + x)" by (rule nearest_le_rho [OF g n])
    show "sum_list xs \<le> rho * sum_list xs"
      using mult_right_mono [OF rho_ge_1 s] by simp
    show "0 \<le> rho ^ length xs" using rho_pos by simp
  qed
  also have "\<dots> = rho ^ length (x # xs) * (c + sum_list (x # xs))"
    by (simp add: algebra_simps)
  finally have upper: "fsum c (x # xs) \<le> rho ^ length (x # xs) * (c + sum_list (x # xs))" .
  have "c + sum_list (x # xs) = (c + x) + sum_list xs" by simp
  also have "\<dots> \<le> rho * nearest (c + x) + rho * sum_list xs"
  proof (intro add_mono)
    show "c + x \<le> rho * nearest (c + x)" by (rule le_rho_nearest [OF g n])
    show "sum_list xs \<le> rho * sum_list xs"
      using mult_right_mono [OF rho_ge_1 s] by simp
  qed
  also have "\<dots> = rho * (nearest (c + x) + sum_list xs)"
    by (simp add: algebra_simps)
  also have "\<dots> \<le> rho * (rho ^ length xs * fsum (nearest (c + x)) xs)"
    using rho_pos IH by (intro mult_left_mono) simp_all
  also have "\<dots> = rho ^ length (x # xs) * fsum c (x # xs)"
    by simp
  finally have lower: "c + sum_list (x # xs) \<le> rho ^ length (x # xs) * fsum c (x # xs)" .
  from upper lower show ?case ..
qed

lemma fsum_upper:
  assumes "grid c" and "0 \<le> c" and "\<forall>x \<in> set xs. grid x \<and> 0 \<le> x"
  shows "fsum c xs \<le> rho ^ length xs * (c + sum_list xs)"
  using fsum_close_both [OF assms] by (rule conjunct1)

lemma fsum_lower:
  assumes "grid c" and "0 \<le> c" and "\<forall>x \<in> set xs. grid x \<and> 0 \<le> x"
  shows "c + sum_list xs \<le> rho ^ length xs * fsum c xs"
  using fsum_close_both [OF assms] by (rule conjunct2)

subsection \<open>Two inequalities\<close>

lemma power_reciprocal_bound:
  fixes x :: rat
  assumes "0 \<le> x"
  shows "(1 + x) ^ m * (1 - rat_of_nat m * x) \<le> 1"
proof (induction m)
  case 0
  then show ?case by simp
next
  case (Suc m)
  have p: "0 \<le> (1 + x) ^ m" using assms by simp
  have "(1 + x) * (1 - rat_of_nat (Suc m) * x) = 1 - rat_of_nat m * x - rat_of_nat (Suc m) * x * x"
    by (simp add: algebra_simps)
  also have "\<dots> \<le> 1 - rat_of_nat m * x"
    using assms by simp
  finally have "(1 + x) ^ m * ((1 + x) * (1 - rat_of_nat (Suc m) * x))
                  \<le> (1 + x) ^ m * (1 - rat_of_nat m * x)"
    using p by (rule mult_left_mono)
  also have "\<dots> \<le> 1" by (rule Suc.IH)
  finally show ?case by (simp add: mult_ac)
qed

lemma tolerance_arith:
  fixes c z M e h n :: rat
  assumes z: "0 \<le> z" "z \<le> 1" and M: "1 \<le> M"
    and U: "c \<le> M * z + M * (n * h)" and L: "z \<le> M * c + M * (n * h)"
    and B: "M * (1 - (2 * n + 1) * e) \<le> 1" and small: "(2 * n + 1) * e \<le> 1 / 8"
    and n: "1 \<le> n" and h: "0 \<le> h" "4 * h \<le> e"
  shows "\<bar>c - z\<bar> \<le> 4 * n * e"
proof -
  define m where "m = (2 * n + 1) * e"
  define ne where "ne = n * e"
  define nh where "nh = n * h"
  have e: "0 \<le> e" using h by linarith
  have nh: "0 \<le> nh" using n h by (simp add: nh_def)
  have ne: "0 \<le> ne" using n e by (simp add: ne_def)
  have m0: "0 \<le> m" using n e by (simp add: m_def)
  have m3: "m \<le> 3 * ne"
  proof -
    have "m = 2 * ne + e" by (simp add: m_def ne_def algebra_simps)
    moreover have "e \<le> ne" using mult_right_mono [OF n e] by (simp add: ne_def)
    ultimately show ?thesis by linarith
  qed
  have nh4: "4 * nh \<le> ne"
    using mult_left_mono [OF h(2), of n] n by (simp add: ne_def nh_def algebra_simps)
  have B': "M * (1 - m) \<le> 1" using B by (simp add: m_def)
  have small': "m \<le> 1 / 8" using small by (simp add: m_def)
  have U': "c \<le> M * z + M * nh" using U by (simp add: nh_def)
  have L': "z \<le> M * c + M * nh" using L by (simp add: nh_def)
  have Mpos: "0 < M" using M by linarith
  have M87: "M \<le> 8 / 7"
  proof -
    have "M * (7 / 8) \<le> M * (1 - m)"
      using small' Mpos by (intro mult_left_mono) simp_all
    also have "\<dots> \<le> 1" by (rule B')
    finally show ?thesis by simp
  qed
  have Mm: "M * m \<le> 8 / 7 * m"
    using M87 m0 by (rule mult_right_mono)
  have M1: "M - 1 \<le> M * m"
    using B' by (simp add: algebra_simps)
  have Mz: "(M - 1) * z \<le> (M - 1) * 1"
    using z(2) M by (intro mult_left_mono) simp_all
  have Mnh: "M * nh \<le> 8 / 7 * nh"
    using M87 nh by (rule mult_right_mono)
  have M2: "M - 1 \<le> 24 / 7 * ne" using M1 Mm m3 by linarith
  have "c - z \<le> (M - 1) * z + M * nh"
    using U' by (simp add: algebra_simps)
  also have "\<dots> \<le> (M - 1) + 8 / 7 * nh"
    using Mz Mnh by simp
  also have "\<dots> \<le> 4 * ne"
    using M2 nh4 ne by linarith
  finally have up: "c - z \<le> 4 * ne" .
  have zM: "z / M \<le> c + nh"
    using L' Mpos by (simp add: pos_divide_le_eq algebra_simps)
  have "1 - m \<le> 1 / M"
    using B' Mpos by (simp add: pos_le_divide_eq mult.commute)
  then have "z * (1 - m) \<le> z * (1 / M)"
    using z(1) by (rule mult_left_mono)
  then have zm: "z - z * m \<le> z / M" by (simp add: algebra_simps)
  have "z * m \<le> 1 * m"
    using z(2) m0 by (rule mult_right_mono)
  then have "z * m \<le> 3 * ne" using m3 by simp
  moreover have "z - c \<le> z * m + nh" using zM zm by linarith
  ultimately have low: "z - c \<le> 4 * ne"
    using nh4 ne by linarith
  from up low show ?thesis by (simp add: abs_le_iff ne_def)
qed

subsection \<open>Rounded quotients\<close>

lemma nearest_quotient_upper:
  assumes "0 \<le> y"
  shows "nearest y \<le> rho * y + pow2 (- 1075)"
proof -
  have "nearest y - y \<le> \<bar>nearest y - y\<bar>" by simp
  also have "\<dots> \<le> \<bar>y\<bar> * pow2 (- 53) + pow2 (- 1075)" by (rule nearest_mixed_error)
  also have "\<bar>y\<bar> * pow2 (- 53) = y * pow2 (- 53)" using assms by simp
  also have "y * pow2 (- 53) \<le> y * pow2 (- 52)"
    using assms by (intro mult_left_mono pow2_mono) simp_all
  finally show ?thesis by (simp add: rho_def algebra_simps)
qed

lemma nearest_quotient_lower:
  assumes "0 \<le> y"
  shows "y \<le> rho * (nearest y + pow2 (- 1075))"
proof -
  let ?u = "pow2 (- 53)"
  have "y - nearest y \<le> \<bar>nearest y - y\<bar>" by simp
  also have "\<dots> \<le> \<bar>y\<bar> * ?u + pow2 (- 1075)" by (rule nearest_mixed_error)
  also have "\<bar>y\<bar> * ?u = y * ?u" using assms by simp
  finally have "y - y * ?u \<le> nearest y + pow2 (- 1075)" by simp
  then have "rho * (y - y * ?u) \<le> rho * (nearest y + pow2 (- 1075))"
    using rho_pos by (intro mult_left_mono) simp_all
  moreover have "rho * (y - y * ?u) = y + y * ?u * (1 - 2 * ?u)"
    by (simp add: rho_def pow2_52_53 algebra_simps)
  moreover have "0 \<le> y * ?u * (1 - 2 * ?u)"
    using assms pow2_52_le_1 by (intro mult_nonneg_nonneg) (simp_all add: pow2_52_53)
  ultimately show ?thesis by linarith
qed

lemma sum_list_nearest:
  assumes "\<forall>y \<in> set ys. 0 \<le> y"
  shows "sum_list (map nearest ys) \<le> rho * sum_list ys + rat_of_nat (length ys) * pow2 (- 1075) \<and>
         sum_list ys \<le> rho * (sum_list (map nearest ys) + rat_of_nat (length ys) * pow2 (- 1075))"
  using assms
proof (induction ys)
  case Nil
  then show ?case by simp
next
  case (Cons y ys)
  then have y: "0 \<le> y" and IH: "sum_list (map nearest ys) \<le> rho * sum_list ys + rat_of_nat (length ys) * pow2 (- 1075)"
    "sum_list ys \<le> rho * (sum_list (map nearest ys) + rat_of_nat (length ys) * pow2 (- 1075))"
    by simp_all
  from nearest_quotient_upper [OF y] IH(1)
  have 1: "sum_list (map nearest (y # ys))
             \<le> rho * sum_list (y # ys) + rat_of_nat (length (y # ys)) * pow2 (- 1075)"
    by (simp add: algebra_simps)
  from nearest_quotient_lower [OF y] IH(2)
  have 2: "sum_list (y # ys)
             \<le> rho * (sum_list (map nearest (y # ys)) + rat_of_nat (length (y # ys)) * pow2 (- 1075))"
    by (simp add: algebra_simps)
  from 1 2 show ?case ..
qed

lemma sum_list_divide: "sum_list (map (\<lambda>a. a / t) xs) = sum_list xs / t"
  for t :: rat
  by (induction xs) (simp_all add: add_divide_distrib)

lemma chain_upper:
  fixes c :: rat
  assumes "c \<le> A * R" and "R \<le> r * Y + K * h" and "Y \<le> B * z"
    and "0 \<le> A" and "0 \<le> r" and "A * r * B \<le> M" and "A \<le> M"
    and "K \<le> N" and "0 \<le> h" and "0 \<le> z" and "0 \<le> K"
  shows "c \<le> M * z + M * (N * h)"
proof -
  have "c \<le> A * R" by fact
  also have "\<dots> \<le> A * (r * Y + K * h)"
    using assms(2,4) by (rule mult_left_mono)
  also have "\<dots> \<le> A * (r * (B * z) + K * h)"
  proof -
    have "r * Y \<le> r * (B * z)" using assms(3,5) by (rule mult_left_mono)
    then have "r * Y + K * h \<le> r * (B * z) + K * h" by simp
    then show ?thesis using assms(4) by (rule mult_left_mono)
  qed
  also have "\<dots> = (A * r * B) * z + A * (K * h)"
    by (simp add: algebra_simps)
  also have "\<dots> \<le> M * z + M * (N * h)"
  proof -
    have 1: "(A * r * B) * z \<le> M * z" using assms(6,10) by (rule mult_right_mono)
    have a: "K * h \<le> N * h" using assms(8,9) by (rule mult_right_mono)
    have b: "0 \<le> M" using assms(4,7) by linarith
    have c: "0 \<le> K * h" using assms(9,11) by simp
    have "A * (K * h) \<le> M * (N * h)" using assms(7) a b c by (rule mult_mono)
    with 1 show ?thesis by (rule add_mono)
  qed
  finally show ?thesis .
qed

lemma chain_lower:
  fixes c :: rat
  assumes "z \<le> B * Y" and "Y \<le> r * (R + K * h)" and "R \<le> A * c"
    and "0 \<le> B" and "0 \<le> r" and "B * r * A \<le> M" and "B * r \<le> M"
    and "K \<le> N" and "0 \<le> h" and "0 \<le> c" and "0 \<le> K"
  shows "z \<le> M * c + M * (N * h)"
proof -
  have "z \<le> B * Y" by fact
  also have "\<dots> \<le> B * (r * (R + K * h))"
    using assms(2,4) by (rule mult_left_mono)
  also have "\<dots> \<le> B * (r * (A * c + K * h))"
  proof -
    have "R + K * h \<le> A * c + K * h" using assms(3) by simp
    then have "r * (R + K * h) \<le> r * (A * c + K * h)" using assms(5) by (rule mult_left_mono)
    then show ?thesis using assms(4) by (rule mult_left_mono)
  qed
  also have "\<dots> = (B * r * A) * c + (B * r) * (K * h)"
    by (simp add: algebra_simps)
  also have "\<dots> \<le> M * c + M * (N * h)"
  proof -
    have 1: "(B * r * A) * c \<le> M * c" using assms(6,10) by (rule mult_right_mono)
    have a: "K * h \<le> N * h" using assms(8,9) by (rule mult_right_mono)
    have b: "0 \<le> M" using assms(4,5,7) mult_nonneg_nonneg [of B r] by linarith
    have c: "0 \<le> K * h" using assms(9,11) by simp
    have "(B * r) * (K * h) \<le> M * (N * h)" using assms(7) a b c by (rule mult_mono)
    with 1 show ?thesis by (rule add_mono)
  qed
  finally show ?thesis .
qed

subsection \<open>The error of a table entry\<close>

lemma sum_list_take_le:
  fixes xs :: "rat list"
  assumes "\<forall>x \<in> set xs. 0 \<le> x"
  shows "sum_list (take j xs) \<le> sum_list xs"
proof -
  have "sum_list xs = sum_list (take j xs) + sum_list (drop j xs)"
    by (metis append_take_drop_id sum_list_append)
  moreover have "0 \<le> sum_list (drop j xs)"
    using assms by (intro sum_list_nonneg) (auto dest: in_set_dropD)
  ultimately show ?thesis by simp
qed

lemma take_relative_values:
  "take j (relative_values as) = map nearest (map (\<lambda>a. a / fsum 0 as) (take j as))"
  by (simp add: relative_values_def take_map o_def)

lemma table_entry_chain:
  assumes as: "\<forall>a \<in> set as. grid a \<and> 0 \<le> a" and pos: "0 < sum_list as"
    and k: "k < length as"
  defines "c \<equiv> fsum 0 (take (Suc k) (relative_values as))"
    and "z \<equiv> sum_list (take (Suc k) as) / sum_list as"
    and "M \<equiv> rho ^ (2 * length as + 1)"
  shows "c \<le> M * z + M * (rat_of_nat (length as) * pow2 (- 1075)) \<and>
         z \<le> M * c + M * (rat_of_nat (length as) * pow2 (- 1075)) \<and>
         0 \<le> z \<and> z \<le> 1 \<and> 0 \<le> c"
proof -
  let ?n = "length as"
  let ?T = "sum_list as"
  let ?S = "sum_list (take (Suc k) as)"
  let ?h = "pow2 (- 1075)"
  define T' where "T' = fsum 0 as"
  define ys where "ys = map (\<lambda>a. a / T') (take (Suc k) as)"
  define R where "R = sum_list (map nearest ys)"
  define Y where "Y = sum_list ys"
  have T1: "T' \<le> rho ^ ?n * ?T"
    using fsum_upper [of 0 as] as by (simp add: T'_def)
  have T2: "?T \<le> rho ^ ?n * T'"
    using fsum_lower [of 0 as] as by (simp add: T'_def)
  have rn: "0 < rho ^ ?n" using rho_pos by simp
  have T'pos: "0 < T'"
  proof (rule ccontr)
    assume "\<not> 0 < T'"
    then have "T' \<le> 0" by simp
    then have "rho ^ ?n * T' \<le> 0" using rn by (simp add: mult_le_0_iff)
    with T2 pos show False by linarith
  qed
  have S0: "0 \<le> ?S" using as by (intro sum_list_nonneg) (auto dest: in_set_takeD)
  have ST: "?S \<le> ?T" using as by (intro sum_list_take_le) simp
  have z0: "0 \<le> z" using S0 pos by (simp add: z_def)
  have z1: "z \<le> 1" using ST pos by (simp add: z_def)
  have ys0: "\<forall>y \<in> set ys. 0 \<le> y"
    using as T'pos by (auto simp: ys_def dest: in_set_takeD)
  have len: "length ys = Suc k" using k by (simp add: ys_def)
  have c_eq: "c = fsum 0 (map nearest ys)"
    by (simp add: c_def take_relative_values ys_def T'_def)
  have near: "\<forall>x \<in> set (map nearest ys). grid x \<and> 0 \<le> x"
    using ys0 by (auto simp: grid_nearest nearest_nonneg)
  have c1: "c \<le> rho ^ Suc k * R"
    using fsum_upper [of 0 "map nearest ys"] near by (simp add: c_eq R_def len)
  have c2: "R \<le> rho ^ Suc k * c"
    using fsum_lower [of 0 "map nearest ys"] near by (simp add: c_eq R_def len)
  have c0: "0 \<le> c"
    unfolding c_eq using near by (intro fsum_nonneg) simp_all
  have Q1: "R \<le> rho * Y + rat_of_nat (Suc k) * ?h"
    using sum_list_nearest [OF ys0] by (simp add: R_def Y_def len)
  have Q2: "Y \<le> rho * (R + rat_of_nat (Suc k) * ?h)"
    using sum_list_nearest [OF ys0] by (simp add: R_def Y_def len)
  have Y: "Y = ?S / T'" by (simp add: Y_def ys_def sum_list_divide)
  have Y1: "Y \<le> rho ^ ?n * z"
  proof -
    have "?S * ?T \<le> ?S * (rho ^ ?n * T')" using T2 S0 by (rule mult_left_mono)
    then have "?S / T' \<le> rho ^ ?n * (?S / ?T)"
      using T'pos pos by (simp add: field_simps)
    then show ?thesis by (simp only: Y z_def)
  qed
  have Y2: "z \<le> rho ^ ?n * Y"
  proof -
    have "?S * T' \<le> ?S * (rho ^ ?n * ?T)" using T1 S0 by (rule mult_left_mono)
    then have "?S / ?T \<le> rho ^ ?n * (?S / T')"
      using T'pos pos by (simp add: field_simps)
    then show ?thesis by (simp only: Y z_def)
  qed
  have kn: "Suc k \<le> ?n" using k by simp
  have P1: "rho ^ Suc k * rho * rho ^ ?n \<le> M"
  proof -
    have "rho ^ Suc k * rho * rho ^ ?n = rho ^ (Suc k + 1 + ?n)"
      by (simp add: power_add)
    also have "\<dots> \<le> rho ^ (2 * ?n + 1)"
      using kn by (intro rho_power_mono) simp
    finally show ?thesis by (simp add: M_def)
  qed
  have P2: "rho ^ Suc k \<le> M"
    unfolding M_def using kn by (intro rho_power_mono) simp
  have P3: "rho ^ ?n * rho * rho ^ Suc k \<le> M"
    using P1 by (simp add: mult_ac)
  have P4: "rho ^ ?n * rho \<le> M"
  proof -
    have "rho ^ ?n * rho = rho ^ (?n + 1)" by simp
    also have "\<dots> \<le> rho ^ (2 * ?n + 1)" by (intro rho_power_mono) simp
    finally show ?thesis by (simp add: M_def)
  qed
  have K: "rat_of_nat (Suc k) \<le> rat_of_nat ?n" using kn by (simp only: of_nat_le_iff)
  have U: "c \<le> M * z + M * (rat_of_nat ?n * ?h)"
    using c1 Q1 Y1 _ _ P1 P2 K _ z0
    by (rule chain_upper) (use rho_pos in simp_all)
  have L: "z \<le> M * c + M * (rat_of_nat ?n * ?h)"
    using Y2 Q2 c2 _ _ P3 P4 K _ c0
    by (rule chain_lower) (use rho_pos in simp_all)
  from U L z0 z1 c0 show ?thesis by simp
qed

lemma table_entry_error:
  assumes as: "\<forall>a \<in> set as. grid a \<and> 0 \<le> a" and pos: "0 < sum_list as"
    and len: "length as < 2 ^ 32" and k: "k < length as"
  shows "\<bar>fsum 0 (take (Suc k) (relative_values as)) - sum_list (take (Suc k) as) / sum_list as\<bar>
           \<le> rat_of_nat (length as) / 2 ^ 50"
proof -
  let ?n = "rat_of_nat (length as)"
  let ?M = "rho ^ (2 * length as + 1)"
  let ?e = "pow2 (- 52)"
  let ?h = "pow2 (- 1075)"
  note ch = table_entry_chain [OF as pos k]
  have n1: "1 \<le> ?n" using k by (simp add: Suc_leI)
  have "rat_of_nat (length as) < rat_of_nat (2 ^ 32)" using len by (simp only: of_nat_less_iff)
  then have n2: "?n < 2 ^ 32" by simp
  have e: "?e = 1 / 2 ^ 52" by (simp add: pow2_def)
  have B: "?M * (1 - (2 * ?n + 1) * ?e) \<le> 1"
    using power_reciprocal_bound [of ?e "2 * length as + 1"] by (simp add: rho_def add.commute)
  have small: "(2 * ?n + 1) * ?e \<le> 1 / 8"
    using n2 by (simp add: e)
  have h4: "4 * ?h \<le> ?e"
  proof -
    have "4 * ?h = pow2 2 * pow2 (- 1075)" by (simp add: pow2_def)
    also have "\<dots> = pow2 (2 + - 1075)" by (simp only: pow2_add)
    also have "\<dots> \<le> ?e" by (intro pow2_mono) simp
    finally show ?thesis .
  qed
  have U: "fsum 0 (take (Suc k) (relative_values as))
             \<le> ?M * (sum_list (take (Suc k) as) / sum_list as) + ?M * (?n * ?h)"
    using ch by (rule conjunct1)
  have L: "sum_list (take (Suc k) as) / sum_list as
             \<le> ?M * fsum 0 (take (Suc k) (relative_values as)) + ?M * (?n * ?h)"
    using ch by (rule conjunct1 [OF conjunct2])
  have z0: "0 \<le> sum_list (take (Suc k) as) / sum_list as"
    using ch by (rule conjunct1 [OF conjunct2 [OF conjunct2]])
  have z1: "sum_list (take (Suc k) as) / sum_list as \<le> 1"
    using ch by (rule conjunct1 [OF conjunct2 [OF conjunct2 [OF conjunct2]]])
  have M1: "1 \<le> ?M" by (rule rho_power_ge_1)
  have h0: "0 \<le> ?h" by simp
  have "\<bar>fsum 0 (take (Suc k) (relative_values as)) - sum_list (take (Suc k) as) / sum_list as\<bar>
          \<le> 4 * ?n * ?e"
    using z0 z1 M1 U L B small n1 h0 h4 by (rule tolerance_arith)
  also have "\<dots> = ?n / 2 ^ 50" by (simp add: e)
  finally show ?thesis .
qed

lemma table_entry_small:
  assumes as: "\<forall>a \<in> set as. grid a \<and> 0 \<le> a" and pos: "0 < sum_list as"
    and len: "length as < 2 ^ 32" and k: "k < length as"
  shows "fsum 0 (take (Suc k) (relative_values as)) \<le> 2"
proof -
  have n2: "rat_of_nat (length as) \<le> 2 ^ 32"
  proof -
    have "length as \<le> 2 ^ 32" using len by simp
    then have "rat_of_nat (length as) \<le> rat_of_nat (2 ^ 32)" by (simp only: of_nat_le_iff)
    then show ?thesis by simp
  qed
  have z: "0 \<le> sum_list (take (Suc k) as) / sum_list as" "sum_list (take (Suc k) as) / sum_list as \<le> 1"
    using table_entry_chain [OF as pos k] by simp_all
  have "fsum 0 (take (Suc k) (relative_values as)) - sum_list (take (Suc k) as) / sum_list as
          \<le> \<bar>fsum 0 (take (Suc k) (relative_values as)) - sum_list (take (Suc k) as) / sum_list as\<bar>"
    by (rule abs_ge_self)
  also have "\<dots> \<le> rat_of_nat (length as) / 2 ^ 50"
    by (rule table_entry_error [OF assms])
  finally have "fsum 0 (take (Suc k) (relative_values as)) - sum_list (take (Suc k) as) / sum_list as
          \<le> rat_of_nat (length as) / 2 ^ 50" .
  moreover have "rat_of_nat (length as) / 2 ^ 50 \<le> 1"
    using n2 by simp
  ultimately show ?thesis using z(2) by linarith
qed

subsection \<open>The operations of the code on finite numbers\<close>

lemma num_add_Finite: "num_add (Finite a) (Finite b) = round_double (a + b)"
  by (simp add: num_add_def)

lemma num_add_eq_FiniteD:
  assumes "num_add x y = Finite t"
  shows "\<exists>a b. x = Finite a \<and> y = Finite b"
  using assms by (cases x; cases y) (simp_all add: num_add_def)

lemma foldl_num_add_FiniteD:
  assumes "foldl (\<lambda>total individual. num_add total individual) s xs = Finite t"
  shows "(\<exists>c. s = Finite c) \<and> (\<forall>x \<in> set xs. \<exists>a. x = Finite a)"
  using assms
proof (induction xs arbitrary: s)
  case Nil
  then show ?case by simp
next
  case (Cons x xs)
  from Cons.prems have "foldl (\<lambda>total individual. num_add total individual) (num_add s x) xs = Finite t"
    by simp
  from Cons.IH [OF this] obtain c where c: "num_add s x = Finite c"
    and rest: "\<forall>x \<in> set xs. \<exists>a. x = Finite a" by blast
  from num_add_eq_FiniteD [OF c] rest show ?case by auto
qed

lemma total_fitness_FiniteD:
  assumes "total_fitness xs = Finite t"
  shows "\<exists>as. xs = map Finite as"
proof -
  from foldl_num_add_FiniteD [OF assms [unfolded total_fitness_def]]
  have "\<forall>x \<in> set xs. \<exists>a. x = Finite a" by blast
  then have "\<forall>x \<in> set xs. x = Finite (case x of Finite a \<Rightarrow> a | _ \<Rightarrow> 0)" by auto
  then have "xs = map Finite (map (\<lambda>x. case x of Finite a \<Rightarrow> a | _ \<Rightarrow> 0) xs)"
    by (simp add: map_idI)
  then show ?thesis ..
qed

lemma foldl_num_add_fsum:
  assumes "foldl (\<lambda>total individual. num_add total individual) (Finite c) (map Finite as) = Finite t"
  shows "t = fsum c as"
  using assms
proof (induction as arbitrary: c)
  case Nil
  then show ?case by simp
next
  case (Cons a as)
  from Cons.prems
  have run: "foldl (\<lambda>total individual. num_add total individual) (round_double (c + a)) (map Finite as)
               = Finite t"
    by (simp add: num_add_Finite)
  from foldl_num_add_FiniteD [OF this] obtain c' where c': "round_double (c + a) = Finite c'"
    by blast
  then have "c' = nearest (c + a)" by (simp add: round_double_Finite_iff)
  with run c' Cons.IH [of c'] show ?case by simp
qed

lemma total_fitness_fsum:
  "total_fitness (map Finite as) = Finite t \<Longrightarrow> t = fsum 0 as"
  unfolding total_fitness_def by (rule foldl_num_add_fsum)

lemma fsum_append: "fsum c (xs @ ys) = fsum (fsum c xs) ys"
  by (simp add: fsum_def)

lemma fsum_ge_elem:
  assumes "0 \<le> c" and "nearest c = c" and "\<forall>x \<in> set xs. 0 \<le> x \<and> nearest x = x"
    and "x \<in> set xs"
  shows "x \<le> fsum c xs"
proof -
  from assms(4) obtain ys zs where xs: "xs = ys @ x # zs" by (auto simp: in_set_conv_decomp)
  let ?s = "fsum c ys"
  have s0: "0 \<le> ?s" using assms(1,3) by (intro fsum_nonneg) (simp_all add: xs)
  have x0: "0 \<le> x" and xf: "nearest x = x" using assms(3,4) by simp_all
  have "nearest x \<le> nearest (?s + x)" using x0 s0 by (intro nearest_mono) simp_all
  then have 1: "x \<le> nearest (?s + x)" by (simp add: xf)
  have "nearest (?s + x) \<le> fsum (nearest (?s + x)) zs"
  proof (rule fsum_ge)
    show "0 \<le> nearest (?s + x)" using x0 s0 by (intro nearest_nonneg) simp
    show "nearest (nearest (?s + x)) = nearest (?s + x)" by simp
    show "\<forall>x \<in> set zs. 0 \<le> x" using assms(3) by (simp add: xs)
  qed
  with 1 show ?thesis by (simp add: xs fsum_append)
qed

lemma relative_values_bounds:
  assumes as: "\<forall>a \<in> set as. 0 \<le> a \<and> nearest a = a" and pos: "0 < fsum 0 as"
    and r: "r \<in> set (relative_values as)"
  shows "0 \<le> r" and "r \<le> 1" and "nearest r = r" and "grid r"
proof -
  from r obtain a where a: "a \<in> set as" and r_eq: "r = nearest (a / fsum 0 as)"
    by (auto simp: relative_values_def)
  have a0: "0 \<le> a" using as a by simp
  have "a \<le> fsum 0 as" using _ _ as a by (rule fsum_ge_elem) simp_all
  then have le: "a / fsum 0 as \<le> 1" using pos by simp
  have ge: "0 \<le> a / fsum 0 as" using a0 pos by simp
  show "0 \<le> r" unfolding r_eq using ge by (rule nearest_nonneg)
  have "nearest (a / fsum 0 as) \<le> nearest 1" using ge le by (rule nearest_mono)
  then show "r \<le> 1" by (simp add: r_eq)
  show "nearest r = r" by (simp add: r_eq)
  show "grid r" unfolding r_eq by (rule grid_nearest)
qed

lemma num_divide_Finite:
  "t \<noteq> 0 \<Longrightarrow> num_divide (Finite a) (Finite t) = round_double (a / t)"
  by (simp add: num_divide_def)

lemma pow2_1024_gt: "2 < pow2 1024"
  using pow2_strict_mono [of 1 1024] by simp

lemma round_double_small:
  assumes "0 \<le> nearest x" and "nearest x \<le> 2"
  shows "round_double x = Finite (nearest x)"
proof (rule round_double_Finite)
  show "\<bar>nearest x\<bar> < pow2 1024" using assms pow2_1024_gt by simp
qed

lemma relative_fitness_values:
  assumes as: "\<forall>a \<in> set as. 0 \<le> a \<and> nearest a = a"
    and total: "total_fitness (map Finite as) = Finite t" and pos: "0 < t"
  shows "relative_fitness (map Finite as) = map Finite (relative_values as)"
proof -
  have t: "t = fsum 0 as" using total by (rule total_fitness_fsum)
  have "num_divide (Finite a) (Finite t) = Finite (nearest (a / fsum 0 as))" if "a \<in> set as" for a
  proof -
    have "nearest (a / fsum 0 as) \<in> set (relative_values as)"
      using that by (simp add: relative_values_def)
    from relative_values_bounds(1,2) [OF as pos [unfolded t] this]
    have "round_double (a / fsum 0 as) = Finite (nearest (a / fsum 0 as))"
      by (intro round_double_small) simp_all
    then show ?thesis using pos by (simp add: num_divide_Finite t)
  qed
  then show ?thesis
    by (simp add: relative_fitness_def total relative_values_def)
qed

subsection \<open>The cumulative sum\<close>

lemma table_values_snoc:
  "table_values (ds @ [r]) = table_values ds @ [nearest (fsum 0 ds + r)]"
  by (simp add: table_values_def)

lemma at_index_last:
  "at_index xs (int (length xs) - 1) = (if xs = [] then None else Some (last xs))"
  by (cases xs rule: rev_cases) (simp_all add: at_index_def nth_append)

lemma last_table_values: "ds \<noteq> [] \<Longrightarrow> last (table_values ds) = fsum 0 ds"
  by (cases ds rule: rev_cases) (simp_all add: table_values_snoc)

lemma or_zero_Finite [simp]: "or_zero (Some (Finite x)) = Finite x"
  by (simp add: or_zero_def)

lemma or_zero_None [simp]: "or_zero None = Finite 0"
  by (simp add: or_zero_def)

lemma cumulative_step_table_values:
  assumes "0 \<le> nearest (fsum 0 ds + r)" and "nearest (fsum 0 ds + r) \<le> 2"
  shows "cumulative_step (map Finite (table_values ds)) (Finite r, length ds)
           = map Finite (table_values (ds @ [r]))"
proof -
  have len: "length (table_values ds) = length ds" by (simp add: table_values_def)
  have "or_zero (at_index (map Finite (table_values ds)) (int (length ds) - 1)) = Finite (fsum 0 ds)"
    using at_index_last [of "map Finite (table_values ds)"]
    by (cases "ds = []") (simp_all add: len last_map last_table_values table_values_def)
  moreover have "round_double (r + fsum 0 ds) = Finite (nearest (fsum 0 ds + r))"
    using round_double_small [of "fsum 0 ds + r"] assms by (simp add: add.commute)
  ultimately show ?thesis
    by (simp add: cumulative_step_def table_values_snoc num_add_Finite)
qed

lemma foldl_cumulative_step_table_values:
  assumes "\<forall>j \<le> length rs. j \<noteq> 0 \<longrightarrow> 0 \<le> fsum 0 (ds @ take j rs) \<and> fsum 0 (ds @ take j rs) \<le> 2"
  shows "foldl cumulative_step (map Finite (table_values ds))
           (zip (map Finite rs) [length ds..<length ds + length rs])
         = map Finite (table_values (ds @ rs))"
  using assms
proof (induction rs arbitrary: ds)
  case Nil
  then show ?case by simp
next
  case (Cons r rs)
  have "[length ds..<length ds + length (r # rs)]
          = length ds # [Suc (length ds)..<length ds + length (r # rs)]"
    by (rule upt_conv_Cons) simp
  then have z: "zip (map Finite (r # rs)) [length ds..<length ds + length (r # rs)]
             = (Finite r, length ds) # zip (map Finite rs) [length (ds @ [r])..<length (ds @ [r]) + length rs]"
    by simp
  from Cons.prems [rule_format, of 1]
  have b: "0 \<le> nearest (fsum 0 ds + r)" "nearest (fsum 0 ds + r) \<le> 2" by simp_all
  have rest: "\<forall>j \<le> length rs. j \<noteq> 0 \<longrightarrow>
                0 \<le> fsum 0 ((ds @ [r]) @ take j rs) \<and> fsum 0 ((ds @ [r]) @ take j rs) \<le> 2"
  proof (intro allI impI)
    fix j assume "j \<le> length rs" "j \<noteq> 0"
    then show "0 \<le> fsum 0 ((ds @ [r]) @ take j rs) \<and> fsum 0 ((ds @ [r]) @ take j rs) \<le> 2"
      using Cons.prems [rule_format, of "Suc j"] by simp
  qed
  have "foldl cumulative_step (map Finite (table_values ds))
          (zip (map Finite (r # rs)) [length ds..<length ds + length (r # rs)])
        = foldl cumulative_step (map Finite (table_values (ds @ [r])))
            (zip (map Finite rs) [length (ds @ [r])..<length (ds @ [r]) + length rs])"
    unfolding z foldl_Cons cumulative_step_table_values [OF b] ..
  also have "\<dots> = map Finite (table_values ((ds @ [r]) @ rs))"
    by (rule Cons.IH [OF rest])
  finally show ?case by simp
qed

lemma cumulative_sum_table_values:
  assumes "\<forall>k < length rs. 0 \<le> fsum 0 (take (Suc k) rs) \<and> fsum 0 (take (Suc k) rs) \<le> 2"
  shows "cumulative_sum (map Finite rs) = map Finite (table_values rs)"
proof -
  have "\<forall>j \<le> length rs. j \<noteq> 0 \<longrightarrow> 0 \<le> fsum 0 ([] @ take j rs) \<and> fsum 0 ([] @ take j rs) \<le> 2"
  proof (intro allI impI)
    fix j assume "j \<le> length rs" "j \<noteq> 0"
    then obtain k where "j = Suc k" "k < length rs" by (cases j) auto
    then show "0 \<le> fsum 0 ([] @ take j rs) \<and> fsum 0 ([] @ take j rs) \<le> 2"
      using assms by simp
  qed
  from foldl_cumulative_step_table_values [OF this]
  show ?thesis by (simp add: cumulative_sum_def table_values_def)
qed

lemma sorted_table_values:
  assumes "\<forall>r \<in> set rs. 0 \<le> r"
  shows "sorted (table_values rs)"
proof -
  have mono: "fsum 0 (take (Suc i) rs) \<le> fsum 0 (take (Suc j) rs)" if "i \<le> j" for i j
  proof -
    have "take (Suc j) rs = take (Suc i) (take (Suc j) rs) @ drop (Suc i) (take (Suc j) rs)"
      by (simp only: append_take_drop_id)
    also have "take (Suc i) (take (Suc j) rs) = take (Suc i) rs"
      using that by (simp add: min_def)
    finally have eq: "fsum 0 (take (Suc j) rs)
                    = fsum (fsum 0 (take (Suc i) rs)) (drop (Suc i) (take (Suc j) rs))"
      by (metis fsum_append)
    show ?thesis unfolding eq
    proof (rule fsum_ge)
      show "0 \<le> fsum 0 (take (Suc i) rs)"
        using assms by (intro fsum_nonneg) (auto dest: in_set_takeD)
      show "nearest (fsum 0 (take (Suc i) rs)) = fsum 0 (take (Suc i) rs)"
        by (rule fsum_fixed) simp
      show "\<forall>x \<in> set (drop (Suc i) (take (Suc j) rs)). 0 \<le> x"
        using assms by (auto dest!: in_set_dropD in_set_takeD)
    qed
  qed
  show ?thesis
    unfolding table_values_def sorted_map
    by (rule sorted_wrt_mono_rel [of _ "(\<le>)"]) (auto intro: mono)
qed

subsection \<open>The adjusted fitness values\<close>

lemma positive_imp_nonneg: "positive_number x \<Longrightarrow> nonneg_number x"
  by (cases x) (simp_all add: positive_number_def nonneg_number_def)

lemma round_double_nonneg:
  assumes "0 \<le> x"
  shows "nonneg_number (round_double x)"
proof -
  have n: "0 \<le> nearest x" using assms by (rule nearest_nonneg)
  from round_double_cases [of x] show ?thesis
  proof (elim disjE conjE)
    assume r: "round_double x = Finite (nearest x)"
    then have "is_double (nearest x)" by (rule is_double_round_double)
    with n r show ?thesis by (simp add: nonneg_number_def)
  next
    assume "round_double x = Infinity"
    then show ?thesis by (simp add: nonneg_number_def)
  next
    assume "round_double x = NegInfinity" "x \<le> 0"
    then have "x = 0" using assms by simp
    then have "round_double x = Finite 0" by (simp add: round_double_Finite_iff)
    with \<open>round_double x = NegInfinity\<close> show ?thesis by simp
  qed
qed

lemma round_double_positive:
  assumes "pow2 (- 1074) \<le> x"
  shows "positive_number (round_double x)"
proof -
  have n: "0 < nearest x" using assms by (rule nearest_pos)
  have x: "0 < x" using pow2_pos [of "- 1074"] assms by (rule less_le_trans)
  from round_double_cases [of x] show ?thesis
  proof (elim disjE conjE)
    assume r: "round_double x = Finite (nearest x)"
    then have "is_double (nearest x)" by (rule is_double_round_double)
    with n r show ?thesis by (simp add: positive_number_def)
  next
    assume "round_double x = Infinity"
    then show ?thesis by (simp add: positive_number_def)
  next
    assume "x \<le> 0"
    with x show ?thesis by simp
  qed
qed

lemma round_double_0 [simp]: "round_double 0 = Finite 0"
  by (simp add: round_double_Finite_iff)

lemma round_double_1 [simp]: "round_double 1 = Finite 1"
  using pow2_1024_gt by (simp add: round_double_Finite_iff)

lemma shift_negative_nonneg:
  assumes "fs \<noteq> []" and "\<forall>f \<in> set fs. is_double f"
  shows "\<forall>x \<in> set (shift_negative fs). nonneg_number x"
proof (cases "\<exists>value \<in> set fs. value < 0")
  case False
  then show ?thesis using assms(2) by (auto simp: shift_negative_def nonneg_number_def not_less)
next
  case True
  let ?m = "Min (set fs)"
  have "num_add (Finite v) (Math_abs (Math_min fs)) = round_double (v + \<bar>?m\<bar>)" for v
    by (simp add: Math_min_nonempty [OF assms(1)] Math_abs_def num_add_Finite)
  moreover have "0 \<le> v + \<bar>?m\<bar>" if "v \<in> set fs" for v
  proof -
    have "?m \<le> v" using that by simp
    then show ?thesis by linarith
  qed
  ultimately show ?thesis using True by (auto simp: shift_negative_def intro: round_double_nonneg)
qed

lemma shift_negative_zero:
  assumes "fs \<noteq> []" and "\<exists>value \<in> set fs. value < 0"
  shows "Finite 0 \<in> set (shift_negative fs)"
proof -
  let ?m = "Min (set fs)"
  have m: "?m \<in> set fs" using assms(1) by (intro Min_in) simp_all
  have "?m < 0" using assms by (simp add: Min_less_iff)
  then have "num_add (Finite ?m) (Math_abs (Math_min fs)) = Finite 0"
    by (simp add: Math_min_nonempty [OF assms(1)] Math_abs_def num_add_Finite)
  then have "Finite 0 \<in> (\<lambda>value. num_add (Finite value) (Math_abs (Math_min fs))) ` set fs"
    using m by (metis imageI)
  then show ?thesis using assms(2) by (simp add: shift_negative_def)
qed

lemma num_add_1_positive:
  assumes "nonneg_number x"
  shows "positive_number (num_add x (Finite 1))"
proof (cases x)
  case (Finite a)
  then have a: "0 \<le> a" using assms by (simp add: nonneg_number_def)
  have "pow2 (- 1074) \<le> pow2 0" by (intro pow2_mono) simp
  then have "pow2 (- 1074) \<le> a + 1" using a by simp
  then show ?thesis unfolding Finite num_add_Finite by (rule round_double_positive)
next
  case Infinity
  then show ?thesis by (simp add: num_add_def positive_number_def)
qed (use assms in \<open>simp_all add: nonneg_number_def\<close>)

lemma shift_zero_positive:
  assumes "\<forall>x \<in> set xs. nonneg_number x"
  shows "\<forall>x \<in> set (shift_zero xs). positive_number x"
proof (cases "\<exists>value \<in> set xs. value = Finite 0")
  case True
  then show ?thesis using assms by (auto simp: shift_zero_def intro: num_add_1_positive)
next
  case False
  have "positive_number x" if "x \<in> set xs" for x
  proof -
    have "nonneg_number x" "x \<noteq> Finite 0" using assms False that by auto
    then show ?thesis
      by (cases x) (auto simp: nonneg_number_def positive_number_def)
  qed
  then show ?thesis using False by (simp add: shift_zero_def)
qed

lemma shifted_has_finite:
  assumes "fs \<noteq> []"
  shows "\<exists>a. Finite a \<in> set (shift_zero (shift_negative fs))"
proof (cases "Finite 0 \<in> set (shift_negative fs)")
  case True
  then have "num_add (Finite 0) (Finite 1) \<in> set (shift_zero (shift_negative fs))"
    by (auto simp: shift_zero_def)
  then have "Finite 1 \<in> set (shift_zero (shift_negative fs))"
    by (simp add: num_add_Finite)
  then show ?thesis ..
next
  case False
  then have "\<not> (\<exists>value \<in> set fs. value < 0)" using shift_negative_zero [OF assms] by blast
  then have s: "shift_negative fs = map Finite fs" by (simp add: shift_negative_def)
  have "shift_zero (shift_negative fs) = shift_negative fs"
    using False by (auto simp: shift_zero_def)
  then have "Finite (hd fs) \<in> set (shift_zero (shift_negative fs))"
    using assms by (simp add: s)
  then show ?thesis ..
qed

lemma num_divide_1_nonneg:
  assumes "positive_number x"
  shows "nonneg_number (num_divide (Finite 1) x)"
    and "\<And>a. x = Finite a \<Longrightarrow> positive_number (num_divide (Finite 1) x)"
proof -
  have pos: "positive_number (num_divide (Finite 1) x)" if x: "x = Finite a" for a
  proof -
    have a: "0 < a" "is_double a" using assms x by (simp_all add: positive_number_def)
    then have "a < pow2 1024" by (simp add: is_double_iff)
    then have "a \<le> pow2 1074"
      using pow2_mono [of 1024 1074] by simp
    then have "1 / pow2 1074 \<le> 1 / a"
      using a(1) by (intro divide_left_mono) simp_all
    moreover have "1 / pow2 1074 = pow2 (- 1074)"
      using pow2_diff [of 0 1074] by simp
    ultimately have "pow2 (- 1074) \<le> 1 / a" by simp
    then have "positive_number (round_double (1 / a))" by (rule round_double_positive)
    then show ?thesis using a(1) by (simp add: x num_divide_Finite)
  qed
  then show "\<And>a. x = Finite a \<Longrightarrow> positive_number (num_divide (Finite 1) x)" .
  show "nonneg_number (num_divide (Finite 1) x)"
  proof (cases x)
    case (Finite a)
    then show ?thesis using pos by (intro positive_imp_nonneg) simp
  next
    case Infinity
    then show ?thesis by (simp add: num_divide_def nonneg_number_def)
  qed (use assms in \<open>simp_all add: positive_number_def\<close>)
qed

lemma adjusted_nonneg:
  assumes "fs \<noteq> []" and "\<forall>f \<in> set fs. is_double f"
  shows "\<forall>x \<in> set (adjusted_fitness fs ascending). nonneg_number x"
    and "\<exists>x \<in> set (adjusted_fitness fs ascending). positive_number x"
proof -
  let ?s = "shift_zero (shift_negative fs)"
  have p: "\<forall>x \<in> set ?s. positive_number x"
    by (intro shift_zero_positive shift_negative_nonneg assms)
  have ne: "?s \<noteq> []" using assms(1) by (simp add: shift_zero_def shift_negative_def)
  show "\<forall>x \<in> set (adjusted_fitness fs ascending). nonneg_number x"
    using p by (auto simp: adjusted_fitness_def invert_def
                 intro: positive_imp_nonneg num_divide_1_nonneg(1))
  show "\<exists>x \<in> set (adjusted_fitness fs ascending). positive_number x"
  proof (cases "truthy ascending")
    case True
    then have "adjusted_fitness fs ascending = ?s" by (simp add: adjusted_fitness_def invert_def)
    moreover have "hd ?s \<in> set ?s" using ne by simp
    ultimately show ?thesis using p by auto
  next
    case False
    from shifted_has_finite [OF assms(1)] obtain a where a: "Finite a \<in> set ?s" ..
    then have "positive_number (Finite a)" using p by blast
    then have "positive_number (num_divide (Finite 1) (Finite a))"
      by (rule num_divide_1_nonneg(2)) simp
    moreover have "num_divide (Finite 1) (Finite a) \<in> set (adjusted_fitness fs ascending)"
      using a False by (simp add: adjusted_fitness_def invert_def)
    ultimately show ?thesis by blast
  qed
qed

lemma length_adjusted_fitness: "length (adjusted_fitness fs ascending) = length fs"
  by (simp add: adjusted_fitness_def invert_def shift_zero_def shift_negative_def)

lemma adjusted_values:
  assumes "fs \<noteq> []" and "\<forall>f \<in> set fs. is_double f"
    and "total_fitness (adjusted_fitness fs ascending) = Finite t"
  shows "\<exists>as. adjusted_fitness fs ascending = map Finite as \<and> length as = length fs \<and>
           (\<forall>a \<in> set as. 0 \<le> a \<and> nearest a = a \<and> grid a) \<and> 0 < sum_list as"
proof -
  from total_fitness_FiniteD [OF assms(3)] obtain as where
    as: "adjusted_fitness fs ascending = map Finite as" ..
  have len: "length as = length fs"
    using length_adjusted_fitness [of fs ascending] by (simp add: as)
  have each: "0 \<le> a \<and> nearest a = a \<and> grid a" if "a \<in> set as" for a
  proof -
    have "nonneg_number (Finite a)"
      using adjusted_nonneg(1) [OF assms(1,2), of ascending] that by (simp add: as)
    then have "0 \<le> a" "is_double a" by (simp_all add: nonneg_number_def)
    then show ?thesis using is_double_grid [of a] by (simp add: is_double_iff)
  qed
  from adjusted_nonneg(2) [OF assms(1,2), of ascending] obtain a where
    a: "a \<in> set as" "positive_number (Finite a)" by (auto simp: as)
  then have apos: "0 < a" by (simp add: positive_number_def)
  from a(1) obtain ys zs where split: "as = ys @ a # zs" by (auto simp: in_set_conv_decomp)
  have "0 \<le> sum_list ys" "0 \<le> sum_list zs"
    using each by (auto intro!: sum_list_nonneg simp: split)
  then have "0 < sum_list as" using apos by (simp add: split)
  with as len each show ?thesis by blast
qed

subsection \<open>The table within tolerance\<close>

lemma length_relative_values [simp]: "length (relative_values as) = length as"
  by (simp add: relative_values_def)

lemma length_table_values [simp]: "length (table_values rs) = length rs"
  by (simp add: table_values_def)

lemma nth_table_values: "k < length rs \<Longrightarrow> table_values rs ! k = fsum 0 (take (Suc k) rs)"
  by (simp add: table_values_def)

lemma table_within_tolerance:
  assumes ne: "population \<noteq> []" and len: "length population < 2 ^ 32"
    and dbl: "\<forall>x \<in> set population. is_double (fitness x)"
    and total: "total_fitness (adjusted_fitness (map fitness population) ascending) = Finite t"
  shows "\<exists>as table.
           adjusted_fitness (map fitness population) ascending = map Finite as \<and>
           length as = length population \<and> 0 < sum_list as \<and>
           relativeCumulativeFitness (map Some population) ascending = Inr (map Finite table) \<and>
           length table = length population \<and> sorted table \<and>
           (\<forall>k < length population.
              \<bar>table ! k - sum_list (take (Suc k) as) / sum_list as\<bar>
                \<le> rat_of_nat (length population) / 2 ^ 50)"
proof -
  let ?fs = "map fitness population"
  have fs: "?fs \<noteq> []" "\<forall>f \<in> set ?fs. is_double f" using ne dbl by simp_all
  from adjusted_values [OF fs total] obtain as where
    adj: "adjusted_fitness ?fs ascending = map Finite as" and n: "length as = length population"
    and as: "\<forall>a \<in> set as. 0 \<le> a \<and> nearest a = a \<and> grid a" and pos: "0 < sum_list as"
    by auto
  have as1: "\<forall>a \<in> set as. 0 \<le> a \<and> nearest a = a" and as2: "\<forall>a \<in> set as. grid a \<and> 0 \<le> a"
    using as by simp_all
  have len': "length as < 2 ^ 32" using len n by simp
  have tot: "total_fitness (map Finite as) = Finite t" using total by (simp add: adj)
  have t: "t = fsum 0 as" using tot by (rule total_fitness_fsum)
  have tpos: "0 < t"
  proof (rule ccontr)
    assume "\<not> 0 < t"
    then have "t \<le> 0" by simp
    moreover have "0 < rho ^ length as" using rho_pos by simp
    ultimately have "rho ^ length as * t \<le> 0" by (simp add: mult_le_0_iff)
    moreover have "0 + sum_list as \<le> rho ^ length as * fsum 0 as"
      using _ _ as2 by (rule fsum_lower) simp_all
    ultimately show False using pos by (simp add: t)
  qed
  let ?rs = "relative_values as"
  have rel: "relative_fitness (map Finite as) = map Finite ?rs"
    using as1 tot tpos by (rule relative_fitness_values)
  have rs0: "\<forall>r \<in> set ?rs. 0 \<le> r"
    using relative_values_bounds(1) [OF as1 tpos [unfolded t]] by blast
  have bounds: "\<forall>k < length ?rs. 0 \<le> fsum 0 (take (Suc k) ?rs) \<and> fsum 0 (take (Suc k) ?rs) \<le> 2"
  proof (intro allI impI conjI)
    fix k assume k: "k < length ?rs"
    show "0 \<le> fsum 0 (take (Suc k) ?rs)"
      using rs0 by (intro fsum_nonneg) (auto dest: in_set_takeD)
    show "fsum 0 (take (Suc k) ?rs) \<le> 2"
      using as2 pos len' k by (intro table_entry_small) simp_all
  qed
  have cum: "cumulative_sum (map Finite ?rs) = map Finite (table_values ?rs)"
    using bounds by (rule cumulative_sum_table_values)
  have table: "relativeCumulativeFitness (map Some population) ascending
                 = Inr (map Finite (table_values ?rs))"
    by (simp add: relativeCumulativeFitness_def fitness_values_map_Some adj rel cum)
  have err: "\<forall>k < length population.
               \<bar>table_values ?rs ! k - sum_list (take (Suc k) as) / sum_list as\<bar>
                 \<le> rat_of_nat (length population) / 2 ^ 50"
  proof (intro allI impI)
    fix k assume k: "k < length population"
    then have k': "k < length as" using n by simp
    from table_entry_error [OF as2 pos len' k']
    show "\<bar>table_values ?rs ! k - sum_list (take (Suc k) as) / sum_list as\<bar>
            \<le> rat_of_nat (length population) / 2 ^ 50"
      using k' by (simp add: nth_table_values n)
  qed
  have "sorted (table_values ?rs)" using rs0 by (rule sorted_table_values)
  with adj n pos table err show ?thesis
    by (intro exI [of _ as] exI [of _ "table_values ?rs"]) simp
qed

text \<open>Equal fitness values.\<close>

lemma adjusted_is_map: "\<exists>h. adjusted_fitness fs ascending = map h fs"
proof -
  have "\<exists>h1. shift_negative fs = map h1 fs"
  proof (cases "\<exists>value \<in> set fs. value < 0")
    case True
    then have eq: "shift_negative fs
                 = map (\<lambda>value. num_add (Finite value) (Math_abs (Math_min fs))) fs"
      by (simp add: shift_negative_def)
    show ?thesis unfolding eq by (rule exI) (rule refl)
  next
    case False
    then have eq: "shift_negative fs = map Finite fs" by (simp add: shift_negative_def)
    show ?thesis unfolding eq by (rule exI) (rule refl)
  qed
  then obtain h1 where 1: "shift_negative fs = map h1 fs" ..
  have "\<exists>h2. shift_zero xs = map h2 xs" for xs
  proof (cases "\<exists>value \<in> set xs. value = Finite 0")
    case True
    then have eq: "shift_zero xs = map (\<lambda>value. num_add value (Finite 1)) xs"
      by (simp add: shift_zero_def)
    show ?thesis unfolding eq by (rule exI) (rule refl)
  next
    case False
    then have eq: "shift_zero xs = map (\<lambda>value. value) xs" by (simp add: shift_zero_def)
    show ?thesis unfolding eq by (rule exI) (rule refl)
  qed
  then obtain h2 where 2: "shift_zero (map h1 fs) = map h2 (map h1 fs)" ..
  have "\<exists>h3. invert ascending xs = map h3 xs" for xs
  proof (cases "truthy ascending")
    case True
    then have eq: "invert ascending xs = map (\<lambda>value. value) xs" by (simp add: invert_def)
    show ?thesis unfolding eq by (rule exI) (rule refl)
  next
    case False
    then have eq: "invert ascending xs = map (\<lambda>value. num_divide (Finite 1) value) xs"
      by (simp add: invert_def)
    show ?thesis unfolding eq by (rule exI) (rule refl)
  qed
  then obtain h3 where 3: "invert ascending (map h2 (map h1 fs)) = map h3 (map h2 (map h1 fs))" ..
  have eq: "adjusted_fitness fs ascending = map (h3 \<circ> h2 \<circ> h1) fs"
    unfolding adjusted_fitness_def 1 2 3 by simp
  show ?thesis unfolding eq by (rule exI) (rule refl)
qed

lemma uniform_ratio:
  assumes "adjusted_fitness fs ascending = map Finite as" and "\<forall>f \<in> set fs. f = c"
    and "0 < sum_list as" and "k < length as"
  shows "sum_list (take (Suc k) as) / sum_list as = rat_of_nat (Suc k) / rat_of_nat (length as)"
proof -
  obtain h where h: "adjusted_fitness fs ascending = map h fs" using adjusted_is_map by blast
  have "map h fs = map (\<lambda>f. h c) fs" using assms(2) by (intro map_cong) simp_all
  then have "map Finite as = replicate (length fs) (h c)"
    using assms(1) h by (simp add: map_replicate_const)
  moreover have "length as = length fs"
    using arg_cong [OF assms(1), of length] h by simp
  ultimately have "map Finite as = replicate (length as) (h c)" by simp
  then have "\<forall>a \<in> set as. Finite a = h c"
    by (metis (no_types, lifting) imageI in_set_replicate list.set_map)
  then obtain a where a: "\<forall>x \<in> set as. x = a"
    using assms(4) by (metis length_greater_0_conv less_nat_zero_code list.size(3) nth_mem number.inject)
  then have as: "as = replicate (length as) a" by (simp add: replicate_length_same)
  have s: "sum_list as = rat_of_nat (length as) * a"
    by (subst as) (simp add: sum_list_replicate)
  have "take (Suc k) as = replicate (Suc k) a"
    using assms(4) by (subst as) (simp add: min_def)
  then have sk: "sum_list (take (Suc k) as) = rat_of_nat (Suc k) * a"
    by (simp add: sum_list_replicate algebra_simps)
  have "a \<noteq> 0" using assms(3) s by auto
  then show ?thesis unfolding s sk by simp
qed

subsection \<open>The sampling loop\<close>

lemma unique_indices_loop_no_throw: "unique_indices_loop weights n acc draws \<noteq> Some (Inl e)"
  by (induction draws arbitrary: acc) (auto simp: Let_def)

lemma randomUniqueIndices_throws_iff:
  "(\<exists>e. randomUniqueIndices weights n draws = Some (Inl e)) \<longleftrightarrow> n < 0 \<or> n > int (length weights)"
  by (auto simp: randomUniqueIndices_def throw_def unique_indices_loop_no_throw)

lemma randomUniqueIndices_throws:
  "randomUniqueIndices weights n draws = Some (Inl e) \<Longrightarrow>
     e = Error ''n must be between 0 and the population size''"
  by (auto simp: randomUniqueIndices_def throw_def unique_indices_loop_no_throw split: if_splits)


text \<open>The table of a population has one entry per individual.\<close>

lemma length_shift_negative: "length (shift_negative fs) = length fs"
  by (simp add: shift_negative_def)

lemma length_shift_zero: "length (shift_zero fs) = length fs"
  by (simp add: shift_zero_def)

lemma length_invert: "length (invert ascending fs) = length fs"
  by (simp add: invert_def)

lemma length_relative_fitness: "length (relative_fitness fs) = length fs"
  by (simp add: relative_fitness_def)

lemma length_foldl_cumulative_step:
  "length (foldl cumulative_step acc ivs) = length acc + length ivs"
  by (induction ivs arbitrary: acc) (auto simp: cumulative_step_def split: prod.splits)

lemma length_cumulative_sum: "length (cumulative_sum xs) = length xs"
  by (simp add: cumulative_sum_def length_foldl_cumulative_step)

lemma table_length:
  "\<exists>table. relativeCumulativeFitness (map Some population) ascending = Inr table \<and>
           length table = length population"
  by (simp add: relativeCumulativeFitness_def fitness_values_map_Some length_cumulative_sum
        length_relative_fitness length_adjusted_fitness)

lemma weightedSample_unfold:
  assumes "relativeCumulativeFitness (map Some population) ascending = Inr table"
    and "n \<le> int (length population)"
  shows "weightedSampleWithoutReplacement (map Some population) n ascending draws =
           bind (randomUniqueIndices table n)
             (\<lambda>indices. return (map (\<lambda>index. element (map Some population) index) indices)) draws"
  using assms by (simp add: weightedSampleWithoutReplacement_def)


lemma weightedSample_size_error_iff:
  "(\<exists>e. weightedSampleWithoutReplacement (map Some population) n ascending draws = Some (Inl e) \<and>
        InvalidSampleSize e)
     \<longleftrightarrow> n < 0 \<or> n > int (length population)"
proof (cases "n > int (length population)")
  case True
  then show ?thesis
    by (simp add: weightedSampleWithoutReplacement_def throw_def InvalidSampleSize_def)
next
  case False
  then have le: "n \<le> int (length population)" by simp
  obtain weights where w: "relativeCumulativeFitness (map Some population) ascending = Inr weights"
    and len: "length weights = length population"
    using table_length by blast
  have eq: "weightedSampleWithoutReplacement (map Some population) n ascending draws =
              (case randomUniqueIndices weights n draws of
                 None \<Rightarrow> None
               | Some (Inl e) \<Rightarrow> Some (Inl e)
               | Some (Inr (indices, rest)) \<Rightarrow>
                   Some (Inr (map (\<lambda>index. element (map Some population) index) indices, rest)))"
    by (simp add: weightedSample_unfold [OF w le] bind_def return_def
          split: option.splits sum.splits prod.splits)
  show ?thesis
  proof (cases "n < 0")
    case True
    then have "randomUniqueIndices weights n draws =
                 Some (Inl (Error ''n must be between 0 and the population size''))"
      by (simp add: randomUniqueIndices_def throw_def)
    then show ?thesis using True by (simp add: eq InvalidSampleSize_def)
  next
    case n: False
    have "\<not> (\<exists>e. randomUniqueIndices weights n draws = Some (Inl e))"
      using n le len by (simp add: randomUniqueIndices_throws_iff)
    then have "\<not> (\<exists>e. weightedSampleWithoutReplacement (map Some population) n ascending draws
                        = Some (Inl e))"
      by (auto simp: eq split: option.splits sum.splits prod.splits)
    then show ?thesis using n False by auto
  qed
qed

subsection \<open>The body of the evolution loop\<close>

lemma bind_returns:
  "bind m f draws = Some (Inr (v, rest)) \<longleftrightarrow>
     (\<exists>x d. m draws = Some (Inr (x, d)) \<and> f x d = Some (Inr (v, rest)))"
  by (auto simp: bind_def split: option.splits sum.splits)

lemma stop_check_minimum:
  assumes "population \<noteq> []"
  shows "stop_check model population =
           Inr (Some (Min (fitness ` set population)) = stop_value model)"
proof -
  have "Min (fitness ` set population) \<in> fitness ` set population"
    using assms by (intro Min_in) simp_all
  from first_with_fitness [OF this]
  obtain i where "element (map Some population)
                    (indexOf (map fitness population) (Finite (Min (fitness ` set population))))
                  = Some (population ! i)"
    and "fitness (population ! i) = Min (fitness ` set population)"
    by blast
  then show ?thesis
    by (simp add: stop_check_def fittestIndividual_not_ascending [OF assms] truthy_def)
qed

lemma generation_body_Break:
  assumes "generation_body model lf c raw h0 draws = Some (Inr (Break h1, rest))"
  shows "h1 = h0 @ [evaluateFitness raw (fitness_function model) (target_value model)]"
    and "stop_check model (evaluateFitness raw (fitness_function model) (target_value model)) = Inr True"
  using assms
  by (auto simp: generation_body_def Let_def bind_returns return_def throw_def
        split: sum.splits if_splits)

lemma generation_body_Continue:
  assumes "generation_body model lf c raw h0 draws = Some (Inr (Continue next_generation h1, rest))"
  shows "h1 = h0 @ [evaluateFitness raw (fitness_function model) (target_value model)]"
    and "stop_check model (evaluateFitness raw (fitness_function model) (target_value model)) = Inr False"
  using assms
  by (auto simp: generation_body_def Let_def bind_returns return_def throw_def
        split: sum.splits if_splits)

lemma generation_body_stops:
  assumes "lf (h0 @ [evaluateFitness raw (fitness_function model) (target_value model)]) draws
             = Some (Inr ((), rest))"
    and "stop_check model (evaluateFitness raw (fitness_function model) (target_value model)) = Inr True"
  shows "generation_body model lf c raw h0 draws =
           Some (Inr (Break (h0 @ [evaluateFitness raw (fitness_function model) (target_value model)]), rest))"
  using assms by (simp add: generation_body_def Let_def bind_def return_def)

lemma for_generations_history:
  assumes "for_generations model lf c g raw h0 draws = Some (Inr (hist, rest))"
  shows "\<exists>new. hist = h0 @ new \<and> int (length new) \<le> max 0 (generations c - g) \<and>
           (\<forall>k. Suc k < length new \<longrightarrow> stop_check model (new ! k) = Inr False) \<and>
           (\<forall>k < length new. \<exists>p. new ! k = evaluateFitness p (fitness_function model) (target_value model)) \<and>
           (new \<noteq> [] \<longrightarrow>
              hd new = evaluateFitness raw (fitness_function model) (target_value model) \<and>
              (stop_check model (last new) = Inr True \<or>
               stop_check model (last new) = Inr False \<and> int (length new) = generations c - g)) \<and>
           (new = [] \<longrightarrow> generations c \<le> g)"
  using assms
proof (induction "nat (generations c - g)" arbitrary: g raw h0 draws)
  case 0
  then have "\<not> g < generations c" by simp
  with "0.prems" have "hist = h0" by (simp add: return_def)
  then show ?case using \<open>\<not> g < generations c\<close> by simp
next
  case (Suc n)
  then have lt: "g < generations c" by simp
  let ?P = "evaluateFitness raw (fitness_function model) (target_value model)"
  from Suc.prems lt obtain step d where
    body: "generation_body model lf c raw h0 draws = Some (Inr (step, d))" and
    cont: "(case step of Break history1 \<Rightarrow> return history1
            | Continue next_generation history1 \<Rightarrow>
                for_generations model lf c (g + 1) next_generation history1) d
           = Some (Inr (hist, rest))"
    by (subst (asm) for_generations.simps) (auto simp: bind_returns)
  show ?case
  proof (cases step)
    case (Break h1)
    from generation_body_Break [OF body [unfolded Break]]
    have h1: "h1 = h0 @ [?P]" and stop: "stop_check model ?P = Inr True" by simp_all
    from cont Break have "hist = h1" by (simp add: return_def)
    then have "hist = h0 @ [?P]" using h1 by simp
    then show ?thesis using stop lt by (intro exI [of _ "[?P]"]) auto
  next
    case (Continue nxt h1)
    from generation_body_Continue [OF body [unfolded Continue]]
    have h1: "h1 = h0 @ [?P]" and stop: "stop_check model ?P = Inr False" by simp_all
    from cont Continue
    have run: "for_generations model lf c (g + 1) nxt h1 d = Some (Inr (hist, rest))" by simp
    have n: "n = nat (generations c - (g + 1))" using Suc.hyps(2) by simp
    from Suc.hyps(1) [OF n run] obtain new where
      new: "hist = h1 @ new" "int (length new) \<le> max 0 (generations c - (g + 1))"
        "\<forall>k. Suc k < length new \<longrightarrow> stop_check model (new ! k) = Inr False"
        "\<forall>k < length new. \<exists>p. new ! k = evaluateFitness p (fitness_function model) (target_value model)"
        "new \<noteq> [] \<longrightarrow> hd new = evaluateFitness nxt (fitness_function model) (target_value model) \<and>
           (stop_check model (last new) = Inr True \<or>
            stop_check model (last new) = Inr False \<and> int (length new) = generations c - (g + 1))"
        "new = [] \<longrightarrow> generations c \<le> g + 1"
      by blast
    have a: "hist = h0 @ (?P # new)" using new(1) h1 by simp
    have b: "int (length (?P # new)) \<le> max 0 (generations c - g)" using new(2) lt by simp
    have c: "\<forall>k. Suc k < length (?P # new) \<longrightarrow> stop_check model ((?P # new) ! k) = Inr False"
      using new(3) stop by (auto simp: nth_Cons split: nat.splits)
    have d: "\<forall>k < length (?P # new). \<exists>p. (?P # new) ! k
               = evaluateFitness p (fitness_function model) (target_value model)"
      using new(4) by (auto simp: nth_Cons split: nat.splits)
    have e: "stop_check model (last (?P # new)) = Inr True \<or>
             stop_check model (last (?P # new)) = Inr False \<and>
             int (length (?P # new)) = generations c - g"
    proof (cases "new = []")
      case True
      then have "generations c = g + 1" using new(6) lt by simp
      then show ?thesis using True stop by simp
    next
      case False
      then show ?thesis using new(5) by auto
    qed
    show ?thesis
      using a b c d e by (intro exI [of _ "?P # new"]) simp
  qed
qed

lemma for_generations_at_cap:
  assumes "generations c \<le> g"
  shows "for_generations model lf c g raw h0 draws = Some (Inr (h0, draws))"
  using assms by (subst for_generations.simps) (simp add: return_def)

lemma for_generations_stops:
  assumes "g < generations c"
    and "lf (h0 @ [evaluateFitness raw (fitness_function model) (target_value model)]) draws
           = Some (Inr ((), d1))"
    and "stop_check model (evaluateFitness raw (fitness_function model) (target_value model)) = Inr True"
  shows "for_generations model lf c g raw h0 draws =
           Some (Inr (h0 @ [evaluateFitness raw (fitness_function model) (target_value model)], d1))"
  using assms(1)
    generation_body_stops [where lf = lf and model = model and raw = raw and ?h0.0 = h0
      and draws = draws and c = c, OF assms(2,3)]
  by (subst for_generations.simps) (simp add: bind_def return_def)

lemma omitted_flag_minimum:
  assumes "population \<noteq> []"
  shows "\<exists>i<length population.
           fittestIndividual (map Some population) None = Inr (Some (population ! i)) \<and>
           fitness (population ! i) = Min (fitness ` set population) \<and>
           (\<forall>j<i. fitness (population ! j) \<noteq> Min (fitness ` set population))"
proof -
  have "Min (fitness ` set population) \<in> fitness ` set population"
    using assms by (intro Min_in) simp_all
  from first_with_fitness [OF this] show ?thesis
    by (simp add: fittestIndividual_not_ascending [OF assms] truthy_def)
qed

lemma generation_body_breaks_iff:
  assumes "raw \<noteq> []"
    and "lf (h0 @ [evaluateFitness raw (fitness_function model) (target_value model)]) draws
           = Some (Inr ((), rest))"
  shows "(\<exists>h1 rest1. generation_body model lf c raw h0 draws = Some (Inr (Break h1, rest1))) \<longleftrightarrow>
         Some (Min (fitness ` set (evaluateFitness raw (fitness_function model) (target_value model))))
           = stop_value model"
proof -
  let ?P = "evaluateFitness raw (fitness_function model) (target_value model)"
  have ne: "?P \<noteq> []" using assms(1) by (simp add: evaluateFitness_def)
  note sc = stop_check_minimum [OF ne, of model]
  show ?thesis
  proof
    assume "\<exists>h1 rest1. generation_body model lf c raw h0 draws = Some (Inr (Break h1, rest1))"
    then obtain h1 rest1 where "generation_body model lf c raw h0 draws = Some (Inr (Break h1, rest1))"
      by blast
    from generation_body_Break(2) [OF this] sc
    show "Some (Min (fitness ` set ?P)) = stop_value model" by simp
  next
    assume "Some (Min (fitness ` set ?P)) = stop_value model"
    then have "stop_check model ?P = Inr True" using sc by simp
    from generation_body_stops [where lf = lf and model = model and raw = raw and ?h0.0 = h0
      and draws = draws and c = c, OF assms(2) this] show
      "\<exists>h1 rest1. generation_body model lf c raw h0 draws = Some (Inr (Break h1, rest1))"
      by blast
  qed
qed

text \<open>
  Besides the early exit and the cap, a thrown error ends the loop: with a survival rate
  of one half the mating pool of two individuals has one member, and
  \<^verbatim>\<open>crossover\<close> throws.
\<close>

lemma for_generations_throws_example:
  "for_generations test_model no_logging (test_configuration\<lparr>survival_rate := 1 / 2\<rparr>) 0
       [1, 3] [] generation_draws
     = Some (Inl (Error ''population size must be greater than 1''))"
  by code_simp

lemma geneticAlgorithm_value:
  assumes "geneticAlgorithm model lf c draws = Some (Inr (v, rest))"
  shows "v = None"
  using assms by (auto simp: geneticAlgorithm_def bind_returns return_def)

subsection \<open>Overflow of a sum\<close>

lemma round_double_pow2_sum:
  assumes "n = m + 1" and "1024 \<le> n"
  shows "round_double (pow2 m + pow2 m) = Infinity"
proof (rule round_double_overflow)
  have "pow2 1024 \<le> pow2 n" using assms(2) by (rule pow2_mono)
  also have "\<dots> = pow2 m + pow2 m" by (simp add: assms(1) pow2_Suc)
  finally show "pow2 1024 \<le> pow2 m + pow2 m" .
qed

lemma cumulative_sum_zeros:
  shows "cumulative_sum [Finite 0, Finite 0] = [Finite 0, Finite 0]"
    and "cumulative_sum [Finite 0, Finite 0, Finite 0] = [Finite 0, Finite 0, Finite 0]"
  by code_simp+

section \<open>The claims\<close>

subsection \<open>C1: the value of geneticAlgorithm\<close>

text \<open>
  C1 (the code departs from the claim): when the loop ends, \<^verbatim>\<open>geneticAlgorithm\<close> is
  to return the record \<^verbatim>\<open>{ history, fittest }\<close>. The function of genetic.js has no
  \<^verbatim>\<open>return\<close> statement: on the run below (two individuals, two generations, ended by
  the generation cap) its value is \<^verbatim>\<open>undefined\<close>. By \<open>geneticAlgorithm_value\<close> this
  is so on every run that ends normally.
\<close>

theorem geneticAlgorithm_returns_undefined:
  "geneticAlgorithm test_model no_logging test_configuration
     ([1 / 10, 3 / 10] @ generation_draws @ generation_draws)
   = Some (Inr (None, []))"
  by code_simp

subsection \<open>C2: when the loop ends\<close>

text \<open>
  C2 (the code departs from the claim): in every generation the loop is to call the
  model's stop predicate with the fitness of the fittest individual and to end when it
  returns true. On the run below the predicate \<^verbatim>\<open>stop_function\<close> of the model is
  true of every fitness of the first generation (of the minimum 1 and of the maximum 3),
  the cap is 2, and the loop still runs a second generation: genetic.js never calls
  \<^verbatim>\<open>stop_function\<close>. Its early exit compares the fitness with \<^verbatim>\<open>stop_value\<close>,
  which this model, like every model of the repository, does not define. By
  \<open>for_generations_history\<close> a run that returns has ended by that comparison or at the
  cap.
\<close>

theorem for_generations_ignores_stop_function:
  "for_generations test_model no_logging test_configuration 0 [1, 3] []
       (generation_draws @ generation_draws)
     = Some (Inr ([first_generation, second_generation], [])) \<and>
   stop_function test_model 1 \<and> stop_function test_model 3 \<and>
   1 < generations test_configuration"
  by code_simp

subsection \<open>C3: the cumulative table\<close>

text \<open>
  C3 (as stated, refuted): for every non-empty population with numeric fitness values the
  table would end at 1 up to rounding. The fitness \<open>pow2 1023\<close> is a double; for two
  individuals of that fitness and \<^verbatim>\<open>ascending = true\<close> the total
  \<open>pow2 1023 + pow2 1023\<close> overflows to \<open>Infinity\<close>, every relative fitness is
  \<open>pow2 1023 / Infinity = 0\<close>, and the table is \<open>[0, 0]\<close>.
\<close>

theorem relativeCumulativeFitness_overflow_counterexample:
  "is_double (pow2 1023) \<and>
   relativeCumulativeFitness
     (map Some [\<lparr>genes = (1::nat), fitness = pow2 1023\<rparr>, \<lparr>genes = 2, fitness = pow2 1023\<rparr>])
     (Some True) = Inr [Finite 0, Finite 0]"
proof -
  have d: "is_double (pow2 1023)" by (rule is_double_pow2) simp_all
  have p: "\<not> pow2 1023 < 0" "pow2 1023 \<noteq> 0" by (simp_all add: not_less)
  have a: "adjusted_fitness [pow2 1023, pow2 1023] (Some True)
             = [Finite (pow2 1023), Finite (pow2 1023)]"
    using p by (simp add: adjusted_fitness_def shift_negative_def shift_zero_def invert_def truthy_def)
  have t: "total_fitness [Finite (pow2 1023), Finite (pow2 1023)] = Infinity"
    using round_double_pow2_sum [of 1024 1023] round_double_id [OF d]
    by (simp add: total_fitness_def num_add_Finite)
  have r: "relative_fitness [Finite (pow2 1023), Finite (pow2 1023)] = [Finite 0, Finite 0]"
    by (simp add: relative_fitness_def t num_divide_def)
  show ?thesis
    using d by (simp add: relativeCumulativeFitness_def fitness_values_def a r cumulative_sum_zeros)
qed

text \<open>
  C3 (amended): for every non-empty population of fewer than \<open>2 ^ 32\<close> individuals (the
  bound on the length of a JavaScript array) whose fitness values are doubles, and for
  either direction: if the total of the adjusted fitness values is finite, that is, if
  no operation before the division overflows, then \<^verbatim>\<open>relativeCumulativeFitness\<close>
  returns a table of finite numbers with one entry per individual, non-decreasing, whose
  last entry differs from 1 by at most \<open>n / 2 ^ 50\<close>, where \<open>n\<close> is the population
  size.
\<close>

theorem relativeCumulativeFitness_table_within_tolerance:
  assumes "population \<noteq> []" and "length population < 2 ^ 32"
    and "\<forall>x \<in> set population. is_double (fitness x)"
    and "total_fitness (adjusted_fitness (map fitness population) ascending) = Finite t"
  shows "\<exists>table. relativeCumulativeFitness (map Some population) ascending = Inr (map Finite table) \<and>
           length table = length population \<and> sorted table \<and>
           \<bar>last table - 1\<bar> \<le> rat_of_nat (length population) / 2 ^ 50"
proof -
  from table_within_tolerance [OF assms] obtain as table where
    as: "length as = length population" "0 < sum_list as"
    and table: "relativeCumulativeFitness (map Some population) ascending = Inr (map Finite table)"
      "length table = length population" "sorted table"
    and err: "\<forall>k < length population.
                \<bar>table ! k - sum_list (take (Suc k) as) / sum_list as\<bar>
                  \<le> rat_of_nat (length population) / 2 ^ 50"
    by blast
  let ?k = "length population - 1"
  have k: "?k < length population" "Suc ?k = length population" using assms(1) by simp_all
  have "table \<noteq> []" using table(2) assms(1) by auto
  then have "last table = table ! ?k" by (simp add: last_conv_nth table(2))
  moreover have "sum_list (take (Suc ?k) as) / sum_list as = 1"
    using as by (simp add: k(2))
  ultimately have "\<bar>last table - 1\<bar> \<le> rat_of_nat (length population) / 2 ^ 50"
    using err k(1) by (metis (no_types, lifting))
  with table show ?thesis by blast
qed

theorem relativeCumulativeFitness_table_within_tolerance_witness:
  "[\<lparr>genes = (1::nat), fitness = 1\<rparr>, \<lparr>genes = 2, fitness = - 2\<rparr>, \<lparr>genes = 3, fitness = 3\<rparr>] \<noteq> [] \<and>
   length [\<lparr>genes = (1::nat), fitness = 1\<rparr>, \<lparr>genes = 2, fitness = - 2\<rparr>,
           \<lparr>genes = 3, fitness = 3\<rparr>] < 2 ^ 32 \<and>
   (is_double 1 \<and> is_double (- 2) \<and> is_double 3) \<and>
   total_fitness (adjusted_fitness
       (map fitness [\<lparr>genes = (1::nat), fitness = 1\<rparr>, \<lparr>genes = 2, fitness = - 2\<rparr>,
                     \<lparr>genes = 3, fitness = 3\<rparr>]) (Some True)) = Finite 11 \<and>
   relativeCumulativeFitness
       (map Some [\<lparr>genes = (1::nat), fitness = 1\<rparr>, \<lparr>genes = 2, fitness = - 2\<rparr>,
                  \<lparr>genes = 3, fitness = 3\<rparr>]) (Some True)
     = Inr [Finite (3275345183542179 / 9007199254740992),
            Finite (1023545369856931 / 2251799813685248), Finite 1] \<and>
   (\<exists>table. relativeCumulativeFitness
       (map Some [\<lparr>genes = (1::nat), fitness = 1\<rparr>, \<lparr>genes = 2, fitness = - 2\<rparr>,
                  \<lparr>genes = 3, fitness = 3\<rparr>]) (Some True) = Inr (map Finite table) \<and>
      length table = 3 \<and> sorted table \<and> \<bar>last table - 1\<bar> \<le> 3 / 2 ^ 50)"
proof -
  let ?p = "[\<lparr>genes = (1::nat), fitness = 1\<rparr>, \<lparr>genes = 2, fitness = - 2\<rparr>,
             \<lparr>genes = 3, fitness = 3\<rparr>]"
  have h1: "?p \<noteq> []" by simp
  have h2: "length ?p < 2 ^ 32" by simp
  have d: "is_double 1 \<and> is_double (- 2) \<and> is_double 3" by code_simp
  then have h3: "\<forall>x \<in> set ?p. is_double (fitness x)" by simp
  have h4: "total_fitness (adjusted_fitness (map fitness ?p) (Some True)) = Finite 11"
    by code_simp
  have run: "relativeCumulativeFitness (map Some ?p) (Some True)
     = Inr [Finite (3275345183542179 / 9007199254740992),
            Finite (1023545369856931 / 2251799813685248), Finite 1]"
    by code_simp
  from relativeCumulativeFitness_table_within_tolerance [OF h1 h2 h3 h4]
  obtain table where t: "relativeCumulativeFitness (map Some ?p) (Some True) = Inr (map Finite table)"
      "length table = length ?p" "sorted table"
      "\<bar>last table - 1\<bar> \<le> rat_of_nat (length ?p) / 2 ^ 50"
    by blast
  have "length table = 3" using t(2) by simp
  moreover have "\<bar>last table - 1\<bar> \<le> 3 / 2 ^ 50" using t(4) by simp
  ultimately have "\<exists>table. relativeCumulativeFitness (map Some ?p) (Some True) = Inr (map Finite table) \<and>
      length table = 3 \<and> sorted table \<and> \<bar>last table - 1\<bar> \<le> 3 / 2 ^ 50"
    using t(1,3) by blast
  with h1 h2 d h4 run show ?thesis by blast
qed

subsection \<open>C4: sampling without replacement\<close>

text \<open>
  C4 (the code departs from the claim): for \<open>0 \<le> n \<le>\<close> the population size the sample
  is to consist of \<open>n\<close> individuals of the population. For the fitness values 11 and
  28 and the direction flag omitted, the inverted values are the doubles nearest to
  \<open>1/11\<close> and \<open>1/28\<close>, and the rounded cumulative table ends at \<open>1 - 1 / 2 ^ 52\<close>, not
  at 1. The draw \<open>1 - 1 / 2 ^ 52\<close>, a double in \<open>[0, 1)\<close>, is below no entry of the table:
  \<^verbatim>\<open>findIndex\<close> returns \<open>-1\<close>, the index is accepted, and the sample of size 1 is
  \<^verbatim>\<open>[population[-1]]\<close>, that is \<^verbatim>\<open>[undefined]\<close>.
\<close>

theorem weightedSample_returns_undefined:
  "relativeCumulativeFitness
     (map Some [\<lparr>genes = (1::nat), fitness = 11\<rparr>, \<lparr>genes = 2, fitness = 28\<rparr>]) None
     = Inr [Finite (3233353578624971 / 4503599627370496), Finite (1 - 1 / 2 ^ 52)] \<and>
   is_double (1 - 1 / 2 ^ 52) \<and> (0::rat) \<le> 1 - 1 / 2 ^ 52 \<and> (1::rat) - 1 / 2 ^ 52 < 1 \<and>
   findIndex (\<lambda>f. num_less (Finite (1 - 1 / 2 ^ 52)) f)
     [Finite (3233353578624971 / 4503599627370496), Finite (1 - 1 / 2 ^ 52)] = - 1 \<and>
   weightedSampleWithoutReplacement
     (map Some [\<lparr>genes = (1::nat), fitness = 11\<rparr>, \<lparr>genes = 2, fitness = 28\<rparr>]) 1 None
     [1 - 1 / 2 ^ 52]
     = Some (Inr ([None], []))"
  by code_simp

subsection \<open>C5: the fittest individual\<close>

text \<open>
  C5: for a non-empty evaluated population, \<^verbatim>\<open>fittestIndividual\<close> with
  \<^verbatim>\<open>ascending = true\<close> returns the individual at the first position of maximum
  fitness, and with \<^verbatim>\<open>ascending = false\<close> the one at the first position of minimum
  fitness.
\<close>

theorem fittestIndividual_extremal:
  assumes "population \<noteq> []"
  shows "(\<exists>i<length population.
            fittestIndividual (map Some population) (Some True) = Inr (Some (population ! i)) \<and>
            fitness (population ! i) = Max (fitness ` set population) \<and>
            (\<forall>j<i. fitness (population ! j) \<noteq> Max (fitness ` set population))) \<and>
         (\<exists>i<length population.
            fittestIndividual (map Some population) (Some False) = Inr (Some (population ! i)) \<and>
            fitness (population ! i) = Min (fitness ` set population) \<and>
            (\<forall>j<i. fitness (population ! j) \<noteq> Min (fitness ` set population)))"
proof
  have "Max (fitness ` set population) \<in> fitness ` set population"
    using assms by (intro Max_in) simp_all
  from first_with_fitness [OF this]
  show "\<exists>i<length population.
            fittestIndividual (map Some population) (Some True) = Inr (Some (population ! i)) \<and>
            fitness (population ! i) = Max (fitness ` set population) \<and>
            (\<forall>j<i. fitness (population ! j) \<noteq> Max (fitness ` set population))"
    by (simp add: fittestIndividual_ascending [OF assms])
next
  have "Min (fitness ` set population) \<in> fitness ` set population"
    using assms by (intro Min_in) simp_all
  from first_with_fitness [OF this]
  show "\<exists>i<length population.
            fittestIndividual (map Some population) (Some False) = Inr (Some (population ! i)) \<and>
            fitness (population ! i) = Min (fitness ` set population) \<and>
            (\<forall>j<i. fitness (population ! j) \<noteq> Min (fitness ` set population))"
    by (simp add: fittestIndividual_not_ascending [OF assms] truthy_def)
qed

theorem fittestIndividual_extremal_witness:
  "[\<lparr>genes = (1::nat), fitness = 1\<rparr>, \<lparr>genes = 2, fitness = 5\<rparr>,
    \<lparr>genes = 3, fitness = 5\<rparr>, \<lparr>genes = 4, fitness = 1\<rparr>] \<noteq> [] \<and>
   fittestIndividual
     (map Some [\<lparr>genes = (1::nat), fitness = 1\<rparr>, \<lparr>genes = 2, fitness = 5\<rparr>,
                \<lparr>genes = 3, fitness = 5\<rparr>, \<lparr>genes = 4, fitness = 1\<rparr>]) (Some True)
     = Inr (Some \<lparr>genes = 2, fitness = 5\<rparr>) \<and>
   fittestIndividual
     (map Some [\<lparr>genes = (1::nat), fitness = 1\<rparr>, \<lparr>genes = 2, fitness = 5\<rparr>,
                \<lparr>genes = 3, fitness = 5\<rparr>, \<lparr>genes = 4, fitness = 1\<rparr>]) (Some False)
     = Inr (Some \<lparr>genes = 1, fitness = 1\<rparr>)"
proof -
  have a: "fittestIndividual
     (map Some [\<lparr>genes = (1::nat), fitness = 1\<rparr>, \<lparr>genes = 2, fitness = 5\<rparr>,
                \<lparr>genes = 3, fitness = 5\<rparr>, \<lparr>genes = 4, fitness = 1\<rparr>]) (Some True)
     = Inr (Some \<lparr>genes = 2, fitness = 5\<rparr>)"
    by code_simp
  have b: "fittestIndividual
     (map Some [\<lparr>genes = (1::nat), fitness = 1\<rparr>, \<lparr>genes = 2, fitness = 5\<rparr>,
                \<lparr>genes = 3, fitness = 5\<rparr>, \<lparr>genes = 4, fitness = 1\<rparr>]) (Some False)
     = Inr (Some \<lparr>genes = 1, fitness = 1\<rparr>)"
    by code_simp
  have ne: "[\<lparr>genes = (1::nat), fitness = 1\<rparr>, \<lparr>genes = 2, fitness = 5\<rparr>,
    \<lparr>genes = 3, fitness = 5\<rparr>, \<lparr>genes = 4, fitness = 1\<rparr>] \<noteq> []" by simp
  from fittestIndividual_extremal [OF ne] a b ne show ?thesis by blast
qed

subsection \<open>C6: selection on an empty population\<close>

text \<open>
  C6 (as stated, refuted): \<^verbatim>\<open>fittestIndividual\<close> on a population of zero individuals
  would fail with an EmptyPopulation error. The code has no such check: with no fitness
  values \<^verbatim>\<open>Math.max()\<close> is \<open>-Infinity\<close>, \<^verbatim>\<open>indexOf\<close> gives \<open>-1\<close> and
  \<^verbatim>\<open>population[-1]\<close> is \<^verbatim>\<open>undefined\<close>, which is returned normally.
\<close>

theorem fittestIndividual_empty_counterexample:
  "fittestIndividual ([] :: nat population) (Some True) = Inr None"
  by (simp add: fittestIndividual_def fitness_values_def truthy_def indexOf_def findIndex_def
        element_def at_index_def)

text \<open>
  C6 (amended): for either direction, and with the flag omitted, \<^verbatim>\<open>fittestIndividual\<close>
  applied to a population of zero individuals returns \<^verbatim>\<open>undefined\<close>; it throws nothing.
\<close>

theorem fittestIndividual_empty_undefined:
  "fittestIndividual [] ascending = Inr None"
  by (simp add: fittestIndividual_def fitness_values_def indexOf_def findIndex_def
        element_def at_index_def)

theorem fittestIndividual_empty_undefined_witness:
  "fittestIndividual ([] :: nat population) (Some False) = Inr None \<and>
   fittestIndividual ([] :: nat population) None = Inr None"
  using fittestIndividual_empty_undefined [of "Some False"]
    fittestIndividual_empty_undefined [of None]
  by simp

subsection \<open>C7: crossover needs two parents\<close>

text \<open>
  C7: for every requested number of offspring \<open>n\<close> (zero and negative included), every
  crossover function and every state of the random source, \<^verbatim>\<open>crossover\<close> on a mating
  pool with fewer than 2 individuals throws the error "population size must be greater
  than 1" (InsufficientPopulation) and returns no offspring at all.
\<close>

theorem crossover_insufficient_population:
  assumes "length population < 2"
  shows "crossover population n cf ascending draws = Some (Inl InsufficientPopulation)"
  using assms by (simp add: crossover_def throw_def InsufficientPopulation_def)

theorem crossover_insufficient_population_witness:
  "length [Some \<lparr>genes = (7::nat), fitness = 3\<rparr>] < 2 \<and>
   crossover [Some \<lparr>genes = (7::nat), fitness = 3\<rparr>] 0 (\<lambda>a b. return 0) (Some True) [1 / 2]
     = Some (Inl (Error ''population size must be greater than 1''))"
  using crossover_insufficient_population
    [of "[Some \<lparr>genes = (7::nat), fitness = 3\<rparr>]" 0 "\<lambda>a b. return 0" "Some True" "[1 / 2]"]
  by (simp add: InsufficientPopulation_def)

subsection \<open>C8: the size checks of sampling\<close>

text \<open>
  C8: on an evaluated population, \<^verbatim>\<open>weightedSampleWithoutReplacement\<close> throws one of
  the two size errors (InvalidSampleSize) if and only if \<open>n\<close> is negative or exceeds the
  population size, whatever the draws are.
\<close>

theorem weightedSample_invalid_sample_size_iff:
  "(\<exists>e. weightedSampleWithoutReplacement (map Some population) n ascending draws = Some (Inl e) \<and>
        InvalidSampleSize e)
     \<longleftrightarrow> n < 0 \<or> n > int (length population)"
  by (rule weightedSample_size_error_iff)

theorem weightedSample_invalid_sample_size_iff_witness:
  "(\<exists>e. weightedSampleWithoutReplacement
          (map Some [\<lparr>genes = (1::nat), fitness = 1\<rparr>, \<lparr>genes = 2, fitness = 2\<rparr>]) 3 (Some True) []
          = Some (Inl e) \<and> InvalidSampleSize e) \<and>
   (\<exists>e. weightedSampleWithoutReplacement
          (map Some [\<lparr>genes = (1::nat), fitness = 1\<rparr>, \<lparr>genes = 2, fitness = 2\<rparr>]) (- 1) (Some True) []
          = Some (Inl e) \<and> InvalidSampleSize e) \<and>
   \<not> (\<exists>e. weightedSampleWithoutReplacement
          (map Some [\<lparr>genes = (1::nat), fitness = 1\<rparr>, \<lparr>genes = 2, fitness = 2\<rparr>]) 1 (Some True) [1 / 2]
          = Some (Inl e) \<and> InvalidSampleSize e)"
  using weightedSample_invalid_sample_size_iff
      [of "[\<lparr>genes = (1::nat), fitness = 1\<rparr>, \<lparr>genes = 2, fitness = 2\<rparr>]" 3 "Some True" "[]"]
    weightedSample_invalid_sample_size_iff
      [of "[\<lparr>genes = (1::nat), fitness = 1\<rparr>, \<lparr>genes = 2, fitness = 2\<rparr>]" "- 1" "Some True" "[]"]
    weightedSample_invalid_sample_size_iff
      [of "[\<lparr>genes = (1::nat), fitness = 1\<rparr>, \<lparr>genes = 2, fitness = 2\<rparr>]" 1 "Some True" "[1 / 2]"]
  by simp

subsection \<open>C9: equal fitness values\<close>

text \<open>
  C9 (as stated, refuted): for equal fitness values the table would be
  \<open>1/n, 2/n, \<dots>, 1\<close> up to rounding. For three individuals of fitness \<open>pow2 1023\<close> and
  \<^verbatim>\<open>ascending = true\<close> the total overflows to \<open>Infinity\<close> and the table is
  \<open>[0, 0, 0]\<close>.
\<close>

theorem relativeCumulativeFitness_uniform_overflow_counterexample:
  "is_double (pow2 1023) \<and>
   relativeCumulativeFitness
     (map Some [\<lparr>genes = (1::nat), fitness = pow2 1023\<rparr>, \<lparr>genes = 2, fitness = pow2 1023\<rparr>,
                \<lparr>genes = 3, fitness = pow2 1023\<rparr>])
     (Some True) = Inr [Finite 0, Finite 0, Finite 0]"
proof -
  have d: "is_double (pow2 1023)" by (rule is_double_pow2) simp_all
  have p: "\<not> pow2 1023 < 0" "pow2 1023 \<noteq> 0" by (simp_all add: not_less)
  have a: "adjusted_fitness [pow2 1023, pow2 1023, pow2 1023] (Some True)
             = [Finite (pow2 1023), Finite (pow2 1023), Finite (pow2 1023)]"
    using p by (simp add: adjusted_fitness_def shift_negative_def shift_zero_def invert_def truthy_def)
  have t: "total_fitness [Finite (pow2 1023), Finite (pow2 1023), Finite (pow2 1023)] = Infinity"
    using round_double_pow2_sum [of 1024 1023] round_double_id [OF d]
    by (simp add: total_fitness_def num_add_Finite num_add_def)
  have r: "relative_fitness [Finite (pow2 1023), Finite (pow2 1023), Finite (pow2 1023)]
             = [Finite 0, Finite 0, Finite 0]"
    by (simp add: relative_fitness_def t num_divide_def)
  show ?thesis
    using d by (simp add: relativeCumulativeFitness_def fitness_values_def a r cumulative_sum_zeros)
qed

text \<open>
  C9 (amended): for every non-empty population of fewer than \<open>2 ^ 32\<close> individuals whose
  fitness values all equal one double \<open>c\<close> (positive, zero or negative), and for every
  value of the direction flag: if the total of the adjusted fitness values is finite,
  then the table consists of finite numbers, one per individual, and its entry at
  position \<open>k\<close> (counted from 0) differs from \<open>(k + 1) / n\<close> by at most \<open>n / 2 ^ 50\<close>,
  where \<open>n\<close> is the population size.
\<close>

theorem relativeCumulativeFitness_uniform_within_tolerance:
  assumes "population \<noteq> []" and "length population < 2 ^ 32"
    and "is_double c" and "\<forall>x \<in> set population. fitness x = c"
    and "total_fitness (adjusted_fitness (map fitness population) ascending) = Finite t"
  shows "\<exists>table. relativeCumulativeFitness (map Some population) ascending = Inr (map Finite table) \<and>
           length table = length population \<and>
           (\<forall>k < length population.
              \<bar>table ! k - rat_of_nat (Suc k) / rat_of_nat (length population)\<bar>
                \<le> rat_of_nat (length population) / 2 ^ 50)"
proof -
  have dbl: "\<forall>x \<in> set population. is_double (fitness x)" using assms(3,4) by simp
  from table_within_tolerance [OF assms(1,2) dbl assms(5)] obtain as table where
    as: "adjusted_fitness (map fitness population) ascending = map Finite as"
      "length as = length population" "0 < sum_list as"
    and table: "relativeCumulativeFitness (map Some population) ascending = Inr (map Finite table)"
      "length table = length population"
    and err: "\<forall>k < length population.
                \<bar>table ! k - sum_list (take (Suc k) as) / sum_list as\<bar>
                  \<le> rat_of_nat (length population) / 2 ^ 50"
    by blast
  have eq: "\<forall>f \<in> set (map fitness population). f = c" using assms(4) by simp
  have "\<bar>table ! k - rat_of_nat (Suc k) / rat_of_nat (length population)\<bar>
          \<le> rat_of_nat (length population) / 2 ^ 50" if "k < length population" for k
  proof -
    have "k < length as" using that as(2) by simp
    from uniform_ratio [OF as(1) eq as(3) this]
    have "sum_list (take (Suc k) as) / sum_list as
            = rat_of_nat (Suc k) / rat_of_nat (length population)"
      by (simp only: as(2))
    moreover have "\<bar>table ! k - sum_list (take (Suc k) as) / sum_list as\<bar>
                     \<le> rat_of_nat (length population) / 2 ^ 50"
      using err that by blast
    ultimately show ?thesis by (simp only:)
  qed
  with table show ?thesis by blast
qed

theorem relativeCumulativeFitness_uniform_within_tolerance_witness:
  "[\<lparr>genes = (1::nat), fitness = 0\<rparr>, \<lparr>genes = 2, fitness = 0\<rparr>, \<lparr>genes = 3, fitness = 0\<rparr>] \<noteq> [] \<and>
   length [\<lparr>genes = (1::nat), fitness = 0\<rparr>, \<lparr>genes = 2, fitness = 0\<rparr>,
           \<lparr>genes = 3, fitness = 0\<rparr>] < 2 ^ 32 \<and>
   is_double 0 \<and>
   fitness \<lparr>genes = (1::nat), fitness = 0\<rparr> = 0 \<and>
   total_fitness (adjusted_fitness
       (map fitness [\<lparr>genes = (1::nat), fitness = 0\<rparr>, \<lparr>genes = 2, fitness = 0\<rparr>,
                     \<lparr>genes = 3, fitness = 0\<rparr>]) None) = Finite 3 \<and>
   relativeCumulativeFitness
       (map Some [\<lparr>genes = (1::nat), fitness = 0\<rparr>, \<lparr>genes = 2, fitness = 0\<rparr>,
                  \<lparr>genes = 3, fitness = 0\<rparr>]) None
     = Inr [Finite (6004799503160661 / 18014398509481984),
            Finite (6004799503160661 / 9007199254740992), Finite 1] \<and>
   (\<exists>table. relativeCumulativeFitness
       (map Some [\<lparr>genes = (1::nat), fitness = 0\<rparr>, \<lparr>genes = 2, fitness = 0\<rparr>,
                  \<lparr>genes = 3, fitness = 0\<rparr>]) None = Inr (map Finite table) \<and>
      length table = 3 \<and> \<bar>table ! 0 - 1 / 3\<bar> \<le> 3 / 2 ^ 50)"
proof -
  let ?p = "[\<lparr>genes = (1::nat), fitness = 0\<rparr>, \<lparr>genes = 2, fitness = 0\<rparr>,
             \<lparr>genes = 3, fitness = 0\<rparr>]"
  have h1: "?p \<noteq> []" by simp
  have h2: "length ?p < 2 ^ 32" by simp
  have h3: "is_double 0" by simp
  have h4: "\<forall>x \<in> set ?p. fitness x = 0" by simp
  have h5: "total_fitness (adjusted_fitness (map fitness ?p) None) = Finite 3"
    by code_simp
  have run: "relativeCumulativeFitness (map Some ?p) None
     = Inr [Finite (6004799503160661 / 18014398509481984),
            Finite (6004799503160661 / 9007199254740992), Finite 1]"
    by code_simp
  from relativeCumulativeFitness_uniform_within_tolerance [OF h1 h2 h3 h4 h5]
  obtain table where t: "relativeCumulativeFitness (map Some ?p) None = Inr (map Finite table)"
      "length table = length ?p"
      "\<forall>k < length ?p. \<bar>table ! k - rat_of_nat (Suc k) / rat_of_nat (length ?p)\<bar>
          \<le> rat_of_nat (length ?p) / 2 ^ 50"
    by blast
  have "\<bar>table ! 0 - rat_of_nat (Suc 0) / rat_of_nat (length ?p)\<bar>
          \<le> rat_of_nat (length ?p) / 2 ^ 50"
    using t(3) by (intro t(3) [rule_format]) simp
  then have "\<bar>table ! 0 - 1 / 3\<bar> \<le> 3 / 2 ^ 50" by simp
  moreover have "length table = 3" using t(2) by simp
  ultimately have "\<exists>table. relativeCumulativeFitness (map Some ?p) None = Inr (map Finite table) \<and>
      length table = 3 \<and> \<bar>table ! 0 - 1 / 3\<bar> \<le> 3 / 2 ^ 50"
    using t(1) by blast
  with h1 h2 h3 h5 run show ?thesis by simp
qed

subsection \<open>C10: the omitted direction flag\<close>

text \<open>
  C10: for a non-empty evaluated population, \<^verbatim>\<open>fittestIndividual\<close> called without
  the direction flag returns the individual at the first position of minimum fitness.
  The stop check of genetic.js makes this call: it compares the minimum fitness with the
  stop value, and a pass of the loop whose logging returns breaks exactly when the minimum
  fitness of the evaluated population is the stop value.
\<close>

theorem fittestIndividual_omitted_flag_minimum:
  assumes "population \<noteq> []" and "raw \<noteq> []"
    and "lf (h0 @ [evaluateFitness raw (fitness_function model) (target_value model)]) draws
           = Some (Inr ((), rest))"
  shows "(\<exists>i<length population.
            fittestIndividual (map Some population) None = Inr (Some (population ! i)) \<and>
            fitness (population ! i) = Min (fitness ` set population) \<and>
            (\<forall>j<i. fitness (population ! j) \<noteq> Min (fitness ` set population))) \<and>
         stop_check model population =
            Inr (Some (Min (fitness ` set population)) = stop_value model) \<and>
         ((\<exists>h1 rest1. generation_body model lf c raw h0 draws = Some (Inr (Break h1, rest1))) \<longleftrightarrow>
          Some (Min (fitness ` set (evaluateFitness raw (fitness_function model) (target_value model))))
            = stop_value model)"
  using omitted_flag_minimum [OF assms(1)] stop_check_minimum [OF assms(1)]
    generation_body_breaks_iff [where lf = lf and model = model and raw = raw and ?h0.0 = h0
      and draws = draws, OF assms(2,3)]
  by blast

theorem fittestIndividual_omitted_flag_minimum_witness:
  "first_generation \<noteq> [] \<and>
   [1, 3 :: nat] \<noteq> [] \<and>
   no_logging ([] @ [evaluateFitness [1, 3]
       (fitness_function (test_model\<lparr>stop_value := Some 1\<rparr>))
       (target_value (test_model\<lparr>stop_value := Some 1\<rparr>))]) [] = Some (Inr ((), [])) \<and>
   fittestIndividual (map Some first_generation) None = Inr (Some \<lparr>genes = 1, fitness = 1\<rparr>) \<and>
   Max (fitness ` set first_generation) = 3 \<and>
   stop_check (test_model\<lparr>stop_value := Some 1\<rparr>) first_generation = Inr True \<and>
   stop_check (test_model\<lparr>stop_value := Some 3\<rparr>) first_generation = Inr False \<and>
   generation_body (test_model\<lparr>stop_value := Some 1\<rparr>) no_logging test_configuration [1, 3] [] []
     = Some (Inr (Break [first_generation], []))"
proof -
  have h1: "first_generation \<noteq> []"
    by (simp add: first_generation_def)
  have h2: "[1, 3 :: nat] \<noteq> []"
    by simp
  have h3: "no_logging ([] @ [evaluateFitness [1, 3]
       (fitness_function (test_model\<lparr>stop_value := Some 1\<rparr>))
       (target_value (test_model\<lparr>stop_value := Some 1\<rparr>))]) [] = Some (Inr ((), []))"
    by (simp add: no_logging_def return_def)
  have a: "fittestIndividual (map Some first_generation) None = Inr (Some \<lparr>genes = 1, fitness = 1\<rparr>)"
    by code_simp
  have m: "Max (fitness ` set first_generation) = 3"
    by code_simp
  have b: "stop_check (test_model\<lparr>stop_value := Some 1\<rparr>) first_generation = Inr True"
    by code_simp
  have c: "stop_check (test_model\<lparr>stop_value := Some 3\<rparr>) first_generation = Inr False"
    by code_simp
  have d: "generation_body (test_model\<lparr>stop_value := Some 1\<rparr>) no_logging test_configuration [1, 3] [] []
     = Some (Inr (Break [first_generation], []))"
    by code_simp
  from fittestIndividual_omitted_flag_minimum
    [where lf = no_logging and model = "test_model\<lparr>stop_value := Some 1\<rparr>"
       and raw = "[1, 3]" and ?h0.0 = "[]" and draws = "[]", OF h1 h2 h3]
  have "\<exists>i<length first_generation.
          fittestIndividual (map Some first_generation) None = Inr (Some (first_generation ! i))"
    by blast
  with h1 h2 h3 a m b c d show ?thesis by blast
qed

end
